theory Spec2Isabelle
  imports Complex_Main "HOL-Library.AList"
begin

section \<open>Turn-based PvP of the game backend: data model\<close>

text \<open>
  The embedding follows the Socket.IO part of \<^verbatim>\<open>src/index.js\<close> (lines 642-915): the two
  process-wide registries \<^verbatim>\<open>waitingPlayers\<close> (an array) and \<^verbatim>\<open>activeMatches\<close> (a
  \<^verbatim>\<open>Map\<close>), the battle state built by \<^verbatim>\<open>createBattleState\<close>, the resolver
  \<^verbatim>\<open>resolveTurn\<close>, the matchmaker \<^verbatim>\<open>tryMatchPlayers\<close> and the four socket handlers.
  Identifiers (socket ids, player ids, match ids) and actions are JavaScript strings and stay
  strings here; \<^verbatim>\<open>null\<close> is \<open>None\<close>. HP, cooldowns, damage and turn numbers are
  JavaScript numbers that only ever hold small integers and are of type \<open>int\<close>. A handler
  runs to completion before the next event is handled (Node.js runs them on one thread), so
  a handler is a function from the registries to the registries and the list of what it
  sent, in order. \<^verbatim>\<open>console.log\<close> is left out.
\<close>

text \<open>The payload of \<^verbatim>\<open>pvp:queue\<close>; \<^verbatim>\<open>trophies\<close> may be missing.\<close>

record player_data =
  pd_playerId :: string
  pd_username :: string
  pd_stats :: string
  pd_trophies :: "int option"

text \<open>An element of \<^verbatim>\<open>waitingPlayers\<close> (lines 783-789).\<close>

record waiting_entry =
  socketId :: string
  playerId :: string
  username :: string
  stats :: string
  trophies :: int

text \<open>
  An entry of \<^verbatim>\<open>battleState.players\<close> (lines 650-663): the waiting entry spread out,
  followed by the battle fields.
\<close>

record combatant =
  c_socketId :: string
  c_playerId :: string
  c_username :: string
  c_stats :: string
  c_trophies :: int
  hp :: int
  maxHp :: int
  action :: "string option"
  specialCooldown :: int

datatype status = WaitingActions | Resolving | Finished

text \<open>
  \<^verbatim>\<open>battleState\<close>. The object \<^verbatim>\<open>players\<close> has the two keys listed in
  \<^verbatim>\<open>playerIds\<close>; the record keeps its two values as \<open>p1\<close> and \<open>p2\<close>, and
  \<^verbatim>\<open>playerIds\<close> is \<open>[c_playerId p1, c_playerId p2]\<close>. The two keys differ in every
  session the server creates (lemma \<open>reachable_matches_wf\<close> below), so the two values are
  two objects.
\<close>

record battle_state =
  turn :: int
  p1 :: combatant
  p2 :: combatant
  status :: status

record match =
  matchId :: string
  players :: "waiting_entry list"
  battleState :: battle_state
  startedAt :: nat

text \<open>The payload of \<^verbatim>\<open>pvp:turn_result\<close> before personalisation (lines 709-727).\<close>

record turn_result =
  tr_turn :: int
  tr_actions :: "(string \<times> string option) list"
  tr_damage :: "(string \<times> int) list"
  tr_hp :: "(string \<times> int) list"
  tr_specialCooldown :: "(string \<times> int) list"

text \<open>Everything the PvP code sends: the event name with its payload.\<close>

datatype message =
    Queued nat
  | MatchFound string string "string \<times> string \<times> int" int
  | OpponentReady
  | ActionError string
  | TurnResult turn_result string string
  | BattleEnd string bool int
  | OpponentDisconnect

text \<open>
  An effect on the outside world. \<open>Emit s m\<close> is \<^verbatim>\<open>io.to(s).emit(...)\<close> (or
  \<^verbatim>\<open>socket.emit\<close> on the socket \<open>s\<close> itself). \<open>ApplyTrophyDelta p d\<close> is a call of the
  player-profile store for player \<open>p\<close>, the collaborator interface
  \<^verbatim>\<open>applyTrophyDelta(playerId, delta)\<close>; it is part of the type so that its absence from
  what a handler does can be stated.
\<close>

datatype effect =
    Emit string message
  | ApplyTrophyDelta string int

text \<open>
  The two registries. A JavaScript \<^verbatim>\<open>Map\<close> keeps its entries in insertion order, which
  \<^verbatim>\<open>forEach\<close> follows: it is an association list, updated with \<open>AList.update\<close> (in
  place for a key that is present, at the end otherwise) and \<open>AList.delete\<close>.
\<close>

record server =
  waitingPlayers :: "waiting_entry list"
  activeMatches :: "(string \<times> match) list"

section \<open>Battle state and resolver\<close>

text \<open>JavaScript truthiness of a value that is \<^verbatim>\<open>null\<close> or a string.\<close>

definition truthy :: "string option \<Rightarrow> bool" where
  "truthy v = (case v of None \<Rightarrow> False | Some s \<Rightarrow> s \<noteq> [])"

definition toCombatant :: "waiting_entry \<Rightarrow> combatant" where
  "toCombatant e =
     \<lparr>c_socketId = socketId e, c_playerId = playerId e, c_username = username e,
      c_stats = stats e, c_trophies = trophies e,
      hp = 100, maxHp = 100, action = None, specialCooldown = 0\<rparr>"

definition createBattleState :: "waiting_entry \<Rightarrow> waiting_entry \<Rightarrow> battle_state" where
  "createBattleState player1 player2 =
     \<lparr>turn = 1, p1 = toCombatant player1, p2 = toCombatant player2, status = WaitingActions\<rparr>"

text \<open>
  JavaScript numbers are IEEE 754 doubles, and \<^verbatim>\<open>Math.random() * 11\<close> is the exact
  product rounded to the nearest double, ties to the even mantissa. The doubles in
  \<open>[2^e, 2^(e+1))\<close> are the multiples of \<open>2^(e - 52)\<close> (for \<open>e \<ge> -1022\<close>; below, the
  subnormals are the multiples of \<open>2^(-1074)\<close>). \<open>ulp x\<close> is that spacing around a
  number \<open>x < 16\<close>, found by going down from the spacing \<open>2^(-49)\<close> of \<open>[8, 16)\<close>:
  the product is below 16. \<open>ulpFrom n s x\<close> has \<open>s\<close> as the spacing of the candidate
  interval \<open>[s * 2^52, s * 2^53)\<close> and \<open>n\<close> as the number of intervals still below it.
\<close>

fun ulpFrom :: "nat \<Rightarrow> real \<Rightarrow> real \<Rightarrow> real" where
  "ulpFrom 0 s x = s"
| "ulpFrom (Suc n) s x = (if x < s * 2 ^ 52 then ulpFrom n (s / 2) x else s)"

definition ulp :: "real \<Rightarrow> real" where
  "ulp x = ulpFrom 1025 (1 / 2 ^ 49) x"

text \<open>The integer nearest to \<open>y\<close>, the even one of the two when \<open>y\<close> is half way.\<close>

definition roundHalfEven :: "real \<Rightarrow> int" where
  "roundHalfEven y =
     (let f = \<lfloor>y\<rfloor>
      in if y - real_of_int f < 1 / 2 then f
         else if y - real_of_int f > 1 / 2 then f + 1
         else if even f then f
         else f + 1)"

text \<open>
  The double nearest to a real \<open>x\<close> with \<open>0 \<le> x < 16\<close> (zero is a double), and the
  reals that are doubles.
\<close>

definition roundToDouble :: "real \<Rightarrow> real" where
  "roundToDouble x =
     (if x = 0 then 0 else real_of_int (roundHalfEven (x / ulp x)) * ulp x)"

definition isDouble :: "real \<Rightarrow> bool" where
  "isDouble x = (roundToDouble x = x)"

text \<open>
  \<^verbatim>\<open>Math.floor(Math.random() * 11)\<close>, with the value \<open>u\<close> of \<^verbatim>\<open>Math.random()\<close>
  (a double with \<open>0 \<le> u < 1\<close>) as an argument.
\<close>

definition rand11 :: "real \<Rightarrow> int" where
  "rand11 u = \<lfloor>roundToDouble (u * 11)\<rfloor>"

text \<open>Lines 677-694, once for each player: the damage before mitigation.\<close>

definition baseDamage :: "string option \<Rightarrow> int \<Rightarrow> real \<Rightarrow> int" where
  "baseDamage a cd u =
     (if a = Some ''attack'' then 15 + rand11 u
      else if a = Some ''special'' \<and> cd = 0 then 30
      else 0)"

text \<open>Lines 683-685 and 691-693: the cooldown after the action branch.\<close>

definition cooldownAfterAction :: "string option \<Rightarrow> int \<Rightarrow> int" where
  "cooldownAfterAction a cd =
     (if a = Some ''attack'' then cd
      else if a = Some ''special'' \<and> cd = 0 then 2
      else cd)"

text \<open>Lines 697-698: \<^verbatim>\<open>Math.floor(dmg * 0.5)\<close> when the opponent defends.\<close>

definition mitigate :: "string option \<Rightarrow> int \<Rightarrow> int" where
  "mitigate opponentAction dmg =
     (if opponentAction = Some ''defend'' then \<lfloor>real_of_int dmg * 0.5\<rfloor> else dmg)"

text \<open>Lines 705-706.\<close>

definition reduceCooldown :: "string option \<Rightarrow> int \<Rightarrow> int" where
  "reduceCooldown a cd = (if cd > 0 \<and> a \<noteq> Some ''special'' then cd - 1 else cd)"

text \<open>Lines 729-737, on the stored (clamped) HP values.\<close>

definition checkWinner :: "int \<Rightarrow> int \<Rightarrow> string \<Rightarrow> string \<Rightarrow> string option" where
  "checkWinner hp1 hp2 p1Id p2Id =
     (if hp1 \<le> 0 \<and> hp2 \<le> 0 then (if hp1 > hp2 then Some p1Id else Some p2Id)
      else if hp1 \<le> 0 then Some p2Id
      else if hp2 \<le> 0 then Some p1Id
      else None)"

text \<open>
  Lines 671-737 of \<^verbatim>\<open>resolveTurn\<close>: the two combatants after damage and cooldown decay,
  the turn result, and the winner. \<open>u1\<close> and \<open>u2\<close> are the values \<^verbatim>\<open>Math.random()\<close>
  returns for player 1 and player 2 (each is read only when that player attacks).
\<close>

definition resolveBattle ::
  "battle_state \<Rightarrow> real \<Rightarrow> real \<Rightarrow> combatant \<times> combatant \<times> turn_result \<times> string option" where
  "resolveBattle battle u1 u2 =
     (let a1 = action (p1 battle); a2 = action (p2 battle);
          p1Id = c_playerId (p1 battle); p2Id = c_playerId (p2 battle);
          p1Damage = mitigate a2 (baseDamage a1 (specialCooldown (p1 battle)) u1);
          p2Damage = mitigate a1 (baseDamage a2 (specialCooldown (p2 battle)) u2);
          hp1 = max 0 (hp (p1 battle) - p2Damage);
          hp2 = max 0 (hp (p2 battle) - p1Damage);
          cd1 = reduceCooldown a1 (cooldownAfterAction a1 (specialCooldown (p1 battle)));
          cd2 = reduceCooldown a2 (cooldownAfterAction a2 (specialCooldown (p2 battle)));
          turnResult =
            \<lparr>tr_turn = turn battle,
             tr_actions = [(p1Id, a1), (p2Id, a2)],
             tr_damage = [(p1Id, p2Damage), (p2Id, p1Damage)],
             tr_hp = [(p1Id, hp1), (p2Id, hp2)],
             tr_specialCooldown = [(p1Id, cd1), (p2Id, cd2)]\<rparr>
      in ((p1 battle)\<lparr>hp := hp1, specialCooldown := cd1\<rparr>,
          (p2 battle)\<lparr>hp := hp2, specialCooldown := cd2\<rparr>,
          turnResult,
          checkWinner hp1 hp2 p1Id p2Id))"

text \<open>Lines 740-746: the turn result, personalised for each element of \<^verbatim>\<open>match.players\<close>.\<close>

definition emitTurnResult :: "turn_result \<Rightarrow> string \<Rightarrow> string \<Rightarrow> waiting_entry \<Rightarrow> effect" where
  "emitTurnResult tr p1Id p2Id p =
     Emit (socketId p) (TurnResult tr (playerId p) (if playerId p = p1Id then p2Id else p1Id))"

text \<open>Lines 753-760: the battle-end notice for one element of \<^verbatim>\<open>match.players\<close>.\<close>

definition emitBattleEnd :: "string \<Rightarrow> waiting_entry \<Rightarrow> effect" where
  "emitBattleEnd winner p =
     (let isWinner = (playerId p = winner);
          winnerTrophyGain = 20;
          loserTrophyLoss = 10
      in Emit (socketId p) (BattleEnd winner isWinner (if isWinner then winnerTrophyGain else - loserTrophyLoss)))"

text \<open>
  \<^verbatim>\<open>resolveTurn(matchId, match)\<close>. The source mutates \<^verbatim>\<open>match\<close> in place, and
  \<^verbatim>\<open>match\<close> is the value stored under \<^verbatim>\<open>matchId\<close>; the model returns the mutated
  match, the registries after the call and what was sent. When \<^verbatim>\<open>if (winner)\<close> passes
  (the winner's id is a non-empty string) the entry is deleted; otherwise the stored match
  is the mutated one.
\<close>

definition resolveTurn ::
  "string \<Rightarrow> match \<Rightarrow> server \<Rightarrow> real \<Rightarrow> real \<Rightarrow> match \<times> server \<times> effect list" where
  "resolveTurn mId m srv u1 u2 =
     (let battle = battleState m;
          p1Id = c_playerId (p1 battle); p2Id = c_playerId (p2 battle);
          (p1', p2', turnResult, winner) = resolveBattle battle u1 u2;
          sent = map (emitTurnResult turnResult p1Id p2Id) (players m)
      in if truthy winner then
           (let m' = m\<lparr>battleState := battle\<lparr>p1 := p1', p2 := p2', status := Finished\<rparr>\<rparr>
            in (m',
                srv\<lparr>activeMatches := AList.delete mId (activeMatches srv)\<rparr>,
                sent @ map (emitBattleEnd (the winner)) (players m)))
         else
           (let m' = m\<lparr>battleState :=
                        battle\<lparr>turn := turn battle + 1,
                               p1 := p1'\<lparr>action := None\<rparr>, p2 := p2'\<lparr>action := None\<rparr>,
                               status := WaitingActions\<rparr>\<rparr>
            in (m',
                srv\<lparr>activeMatches := AList.update mId m' (activeMatches srv)\<rparr>,
                sent)))"

section \<open>Matchmaking queue and socket handlers\<close>

text \<open>
  \<^verbatim>\<open>i = xs.findIndex(P); if (i > -1) xs.splice(i, 1)\<close>: the first element that satisfies
  \<open>P\<close> is removed, if there is one (lines 780-781, 797-798, 858-859).
\<close>

fun spliceFirst :: "('a \<Rightarrow> bool) \<Rightarrow> 'a list \<Rightarrow> 'a list" where
  "spliceFirst P [] = []"
| "spliceFirst P (x # xs) = (if P x then xs else x # spliceFirst P xs)"

text \<open>
  \<^verbatim>\<open>tryMatchPlayers()\<close> (lines 874-915). \<open>uuid\<close> is what \<^verbatim>\<open>uuidv4()\<close> returns and
  \<open>now\<close> what \<^verbatim>\<open>Date.now()\<close> returns. There is no loop: one call makes at most one match.
\<close>

definition tryMatchPlayers :: "server \<Rightarrow> string \<Rightarrow> nat \<Rightarrow> server \<times> effect list" where
  "tryMatchPlayers srv uuid now =
     (case waitingPlayers srv of
        player1 # player2 # rest \<Rightarrow>
          (let m = \<lparr>matchId = uuid, players = [player1, player2],
                    battleState = createBattleState player1 player2, startedAt = now\<rparr>
           in (srv\<lparr>waitingPlayers := rest,
                    activeMatches := AList.update uuid m (activeMatches srv)\<rparr>,
               [Emit (socketId player1)
                  (MatchFound uuid (playerId player1)
                     (playerId player2, username player2, trophies player2) 100),
                Emit (socketId player2)
                  (MatchFound uuid (playerId player2)
                     (playerId player1, username player1, trophies player1) 100)]))
      | _ \<Rightarrow> (srv, []))"

text \<open>Lines 783-789: the entry pushed for a payload; \<^verbatim>\<open>playerData.trophies || 0\<close>.\<close>

definition newEntry :: "string \<Rightarrow> player_data \<Rightarrow> waiting_entry" where
  "newEntry sock playerData =
     \<lparr>socketId = sock, playerId = pd_playerId playerData, username = pd_username playerData,
      stats = pd_stats playerData,
      trophies = (case pd_trophies playerData of None \<Rightarrow> 0 | Some t \<Rightarrow> t)\<rparr>"

text \<open>Lines 780-789: the queue after the removal of the player's old entry and the push.\<close>

definition enqueue :: "string \<Rightarrow> player_data \<Rightarrow> waiting_entry list \<Rightarrow> waiting_entry list" where
  "enqueue sock playerData q =
     spliceFirst (\<lambda>p. playerId p = pd_playerId playerData) q @ [newEntry sock playerData]"

text \<open>The handler of \<^verbatim>\<open>pvp:queue\<close> on the socket \<open>sock\<close> (lines 777-793).\<close>

definition pvp_queue ::
  "string \<Rightarrow> player_data \<Rightarrow> string \<Rightarrow> nat \<Rightarrow> server \<Rightarrow> server \<times> effect list" where
  "pvp_queue sock playerData uuid now srv =
     (let q = enqueue sock playerData (waitingPlayers srv);
          (srv', sent) = tryMatchPlayers (srv\<lparr>waitingPlayers := q\<rparr>) uuid now
      in (srv', Emit sock (Queued (length q)) # sent))"

text \<open>The handler of \<^verbatim>\<open>pvp:leave\<close> (lines 796-799).\<close>

definition pvp_leave :: "string \<Rightarrow> server \<Rightarrow> server \<times> effect list" where
  "pvp_leave sock srv =
     (srv\<lparr>waitingPlayers := spliceFirst (\<lambda>p. socketId p = sock) (waitingPlayers srv)\<rparr>, [])"

text \<open>\<^verbatim>\<open>battleState.players[id]\<close>; \<open>None\<close> is \<^verbatim>\<open>undefined\<close>.\<close>

definition lookupPlayer :: "battle_state \<Rightarrow> string \<Rightarrow> combatant option" where
  "lookupPlayer battle pid =
     (if pid = c_playerId (p1 battle) then Some (p1 battle)
      else if pid = c_playerId (p2 battle) then Some (p2 battle)
      else None)"

text \<open>\<^verbatim>\<open>battleState.players[id].action = a\<close> (line 821).\<close>

definition setAction :: "battle_state \<Rightarrow> string \<Rightarrow> string \<Rightarrow> battle_state" where
  "setAction battle pid a =
     (if pid = c_playerId (p1 battle) then battle\<lparr>p1 := (p1 battle)\<lparr>action := Some a\<rparr>\<rparr>
      else if pid = c_playerId (p2 battle) then battle\<lparr>p2 := (p2 battle)\<lparr>action := Some a\<rparr>\<rparr>
      else battle)"

text \<open>
  \<^verbatim>\<open>opponent = match.players.find(p => p.socketId !== socket.id)\<close> followed by one emit to
  it, if it exists (lines 825-828 and 863-866).
\<close>

definition notifyOpponent :: "string \<Rightarrow> match \<Rightarrow> message \<Rightarrow> effect list" where
  "notifyOpponent sock m msg =
     (case find (\<lambda>p. socketId p \<noteq> sock) (players m) of
        None \<Rightarrow> []
      | Some opponent \<Rightarrow> [Emit (socketId opponent) msg])"

text \<open>
  Lines 821-838 of the \<^verbatim>\<open>pvp:submit_action\<close> handler: what happens once the submission
  of \<open>player\<close> for the match \<open>m\<close> stored under \<open>mId\<close> has passed every check.
  The source mutates the match object it found in the map. The result is the registries,
  what was sent, and that match object as the handler leaves it: after a final turn the
  object is no longer in the map, and this third component is the only place where it can
  be seen.
\<close>

definition acceptAction ::
  "string \<Rightarrow> string \<Rightarrow> string \<Rightarrow> real \<Rightarrow> real \<Rightarrow> server \<Rightarrow> match \<Rightarrow> waiting_entry
     \<Rightarrow> server \<times> effect list \<times> match option" where
  "acceptAction sock mId act u1 u2 srv m player =
     (let m1 = m\<lparr>battleState := setAction (battleState m) (playerId player) act\<rparr>;
          srv1 = srv\<lparr>activeMatches := AList.update mId m1 (activeMatches srv)\<rparr>;
          ready = notifyOpponent sock m OpponentReady;
          allSubmitted = (action (p1 (battleState m1)) \<noteq> None
                          \<and> action (p2 (battleState m1)) \<noteq> None)
      in if allSubmitted then
           (let m2 = m1\<lparr>battleState := (battleState m1)\<lparr>status := Resolving\<rparr>\<rparr>;
                (m3, srv2, sent) = resolveTurn mId m2 srv1 u1 u2
            in (srv2, ready @ sent, Some m3))
         else (srv1, ready, Some m1))"

text \<open>
  The handler of \<^verbatim>\<open>pvp:submit_action\<close> (lines 802-839) with the payload
  \<^verbatim>\<open>{matchId, action}\<close>; \<open>u1\<close> and \<open>u2\<close> are the random numbers a resolution would draw.
  The third component is \<open>None\<close> when the submission is rejected.
\<close>

definition pvp_submit_action ::
  "string \<Rightarrow> string \<Rightarrow> string \<Rightarrow> real \<Rightarrow> real \<Rightarrow> server \<Rightarrow> server \<times> effect list \<times> match option" where
  "pvp_submit_action sock mId act u1 u2 srv =
     (case map_of (activeMatches srv) mId of
        None \<Rightarrow> (srv, [], None)
      | Some m \<Rightarrow>
          if status (battleState m) \<noteq> WaitingActions then (srv, [], None)
          else
            (case find (\<lambda>p. socketId p = sock) (players m) of
               None \<Rightarrow> (srv, [], None)
             | Some player \<Rightarrow>
                 (case lookupPlayer (battleState m) (playerId player) of
                    None \<Rightarrow> (srv, [], None)
                  | Some battlePlayer \<Rightarrow>
                      if truthy (action battlePlayer) then (srv, [], None)
                      else if act \<notin> set [''attack'', ''defend'', ''special''] then (srv, [], None)
                      else if act = ''special'' \<and> specialCooldown battlePlayer > 0 then
                        (srv, [Emit sock (ActionError ''Special is on cooldown!'')], None)
                      else acceptAction sock mId act u1 u2 srv m player)))"

text \<open>
  The loop of the \<^verbatim>\<open>disconnect\<close> handler (lines 861-869): \<^verbatim>\<open>activeMatches.forEach\<close> over
  the entries in insertion order; \<open>am\<close> is the map as the deletions so far left it.
\<close>

fun forEachMatch ::
  "string \<Rightarrow> (string \<times> match) list \<Rightarrow> (string \<times> match) list
     \<Rightarrow> (string \<times> match) list \<times> effect list" where
  "forEachMatch sock [] am = (am, [])"
| "forEachMatch sock ((mId, m) # rest) am =
     (if list_ex (\<lambda>p. socketId p = sock) (players m) then
        (let (am', sent) = forEachMatch sock rest (AList.delete mId am)
         in (am', notifyOpponent sock m OpponentDisconnect @ sent))
      else forEachMatch sock rest am)"

text \<open>The handler of \<^verbatim>\<open>disconnect\<close> (lines 855-870).\<close>

definition disconnect :: "string \<Rightarrow> server \<Rightarrow> server \<times> effect list" where
  "disconnect sock srv =
     (let q = spliceFirst (\<lambda>p. socketId p = sock) (waitingPlayers srv);
          (am, sent) = forEachMatch sock (activeMatches srv) (activeMatches srv)
      in (\<lparr>waitingPlayers = q, activeMatches = am\<rparr>, sent))"

section \<open>The server as a transition system\<close>

text \<open>
  An inbound event, with the socket it arrives on and the values the environment supplies
  while it is handled (\<^verbatim>\<open>uuidv4()\<close>, \<^verbatim>\<open>Date.now()\<close>, \<^verbatim>\<open>Math.random()\<close>).
\<close>

datatype event =
    PvpQueue string player_data string nat
  | PvpLeave string
  | PvpSubmitAction string string string real real
  | Disconnect string

fun step :: "server \<Rightarrow> event \<Rightarrow> server \<times> effect list" where
  "step srv (PvpQueue sock playerData uuid now) = pvp_queue sock playerData uuid now srv"
| "step srv (PvpLeave sock) = pvp_leave sock srv"
| "step srv (PvpSubmitAction sock mId act u1 u2) =
     (case pvp_submit_action sock mId act u1 u2 srv of (srv', sent, written) \<Rightarrow> (srv', sent))"
| "step srv (Disconnect sock) = disconnect sock srv"

text \<open>
  What the environment may supply: \<^verbatim>\<open>Math.random()\<close> is a double in \<open>[0, 1)\<close> and
  \<^verbatim>\<open>uuidv4()\<close> is not the id of a match being played.
\<close>

fun valid_event :: "server \<Rightarrow> event \<Rightarrow> bool" where
  "valid_event srv (PvpQueue sock playerData uuid now) = (uuid \<notin> fst ` set (activeMatches srv))"
| "valid_event srv (PvpSubmitAction sock mId act u1 u2) =
     (isDouble u1 \<and> 0 \<le> u1 \<and> u1 < 1 \<and> isDouble u2 \<and> 0 \<le> u2 \<and> u2 < 1)"
| "valid_event srv _ = True"

definition init :: server where
  "init = \<lparr>waitingPlayers = [], activeMatches = []\<rparr>"

inductive reachable :: "server \<Rightarrow> bool" where
  reachable_init: "reachable init"
| reachable_step: "reachable srv \<Longrightarrow> valid_event srv e \<Longrightarrow> reachable (fst (step srv e))"

text \<open>A run of events from a state: the final state, and everything sent on the way.\<close>

fun run :: "server \<Rightarrow> event list \<Rightarrow> server \<times> effect list" where
  "run srv [] = (srv, [])"
| "run srv (e # es) =
     (let (srv', sent) = step srv e; (srv'', sent') = run srv' es in (srv'', sent @ sent'))"

fun valid_run :: "server \<Rightarrow> event list \<Rightarrow> bool" where
  "valid_run srv [] = True"
| "valid_run srv (e # es) = (valid_event srv e \<and> valid_run (fst (step srv e)) es)"

text \<open>
  The states a match object goes through: as stored in \<^verbatim>\<open>activeMatches\<close> between two
  events, and as a \<^verbatim>\<open>pvp:submit_action\<close> handler leaves the object it wrote to.
\<close>

inductive reachable_session :: "match \<Rightarrow> bool" where
  session_stored:
    "reachable srv \<Longrightarrow> (k, m) \<in> set (activeMatches srv) \<Longrightarrow> reachable_session m"
| session_written:
    "reachable srv \<Longrightarrow> valid_event srv (PvpSubmitAction sock mId act u1 u2) \<Longrightarrow>
     pvp_submit_action sock mId act u1 u2 srv = (srv', sent, Some m) \<Longrightarrow> reachable_session m"

text \<open>The cooldown values the resolver produces.\<close>

definition cooldown_ok :: "combatant \<Rightarrow> bool" where
  "cooldown_ok c = (specialCooldown c = 0 \<or> specialCooldown c = 1 \<or> specialCooldown c = 2)"

text \<open>
  How \<^verbatim>\<open>tryMatchPlayers\<close> builds a match: two participants with different player ids,
  the battle entries carrying those ids in the same order.
\<close>

definition match_wf :: "match \<Rightarrow> bool" where
  "match_wf m =
     (case players m of
        [e1, e2] \<Rightarrow>
          playerId e1 \<noteq> playerId e2
          \<and> c_playerId (p1 (battleState m)) = playerId e1
          \<and> c_playerId (p2 (battleState m)) = playerId e2
      | _ \<Rightarrow> False)"

text \<open>A pending special was accepted with the cooldown at 0.\<close>

definition pending_ok :: "combatant \<Rightarrow> bool" where
  "pending_ok c = (action c = Some ''special'' \<longrightarrow> specialCooldown c = 0)"

text \<open>What holds of every match stored in \<^verbatim>\<open>activeMatches\<close> between two events.\<close>

definition match_ok :: "match \<Rightarrow> bool" where
  "match_ok m =
     (match_wf m \<and> status (battleState m) = WaitingActions
      \<and> cooldown_ok (p1 (battleState m)) \<and> cooldown_ok (p2 (battleState m))
      \<and> pending_ok (p1 (battleState m)) \<and> pending_ok (p2 (battleState m)))"

definition server_inv :: "server \<Rightarrow> bool" where
  "server_inv srv =
     (length (waitingPlayers srv) \<le> 1
      \<and> distinct (map fst (activeMatches srv))
      \<and> list_all (\<lambda>(k, m). match_ok m) (activeMatches srv))"

text \<open>A battle state with the two pending actions set, as two accepted submissions leave it.\<close>

definition withActions :: "battle_state \<Rightarrow> string option \<Rightarrow> string option \<Rightarrow> battle_state" where
  "withActions battle a1 a2 =
     battle\<lparr>p1 := (p1 battle)\<lparr>action := a1\<rparr>, p2 := (p2 battle)\<lparr>action := a2\<rparr>\<rparr>"

section \<open>Scenarios\<close>

text \<open>
  Two players on two sockets. They are paired by the second \<^verbatim>\<open>pvp:queue\<close>, in the
  match \<open>''m1''\<close>.
\<close>

definition alice :: player_data where
  "alice = \<lparr>pd_playerId = ''A'', pd_username = ''alice'', pd_stats = [], pd_trophies = Some 120\<rparr>"

definition bob :: player_data where
  "bob = \<lparr>pd_playerId = ''B'', pd_username = ''bob'', pd_stats = [], pd_trophies = None\<rparr>"

text \<open>A first turn in which both players use the special.\<close>

definition bothSpecial :: battle_state where
  "bothSpecial =
     withActions (createBattleState (newEntry ''sa'' alice) (newEntry ''sb'' bob))
       (Some ''special'') (Some ''special'')"

definition pairing :: "event list" where
  "pairing = [PvpQueue ''sa'' alice ''m0'' 0, PvpQueue ''sb'' bob ''m1'' 1]"

text \<open>
  Four turns of a battle between them. Player A uses the special, then attacks for 25, 15
  and 15; player B attacks for 15, 20, 20 and 20. They leave A with 25 HP, B with 15 HP and
  both cooldowns at 0.
\<close>

definition fourTurns :: "event list" where
  "fourTurns =
     [PvpSubmitAction ''sa'' ''m1'' ''special'' 0 0,
      PvpSubmitAction ''sb'' ''m1'' ''attack'' 0 0,
      PvpSubmitAction ''sa'' ''m1'' ''attack'' 0 0,
      PvpSubmitAction ''sb'' ''m1'' ''attack'' (15 / 16) (1 / 2),
      PvpSubmitAction ''sa'' ''m1'' ''attack'' 0 0,
      PvpSubmitAction ''sb'' ''m1'' ''attack'' 0 (1 / 2),
      PvpSubmitAction ''sa'' ''m1'' ''attack'' 0 0,
      PvpSubmitAction ''sb'' ''m1'' ''attack'' 0 (1 / 2)]"

text \<open>The state in which both have 30 damage coming: A has submitted the special, B has not yet.\<close>

definition beforeDoubleKO :: server where
  "beforeDoubleKO =
     fst (run init (pairing @ fourTurns @ [PvpSubmitAction ''sa'' ''m1'' ''special'' 0 0]))"

text \<open>HP, cooldown and pending action of the two combatants of a match.\<close>

definition summary :: "match \<Rightarrow> (int \<times> int \<times> string option) \<times> (int \<times> int \<times> string option)" where
  "summary m =
     ((hp (p1 (battleState m)), specialCooldown (p1 (battleState m)), action (p1 (battleState m))),
      (hp (p2 (battleState m)), specialCooldown (p2 (battleState m)), action (p2 (battleState m))))"

text \<open>
  A fifth turn that ends the battle by an ordinary win: both attack with the lowest roll,
  B falls to 0 and A keeps 10 HP. \<open>beforeLastTurn\<close> is the state in which A has submitted
  and B has not; \<open>lastTurnMatch\<close> is the match object \<^verbatim>\<open>resolveTurn\<close> is then called
  with, once B's attack is recorded and the status is \<^verbatim>\<open>resolving\<close>.
\<close>

definition beforeLastTurn :: server where
  "beforeLastTurn =
     fst (run init (pairing @ fourTurns @ [PvpSubmitAction ''sa'' ''m1'' ''attack'' 0 0]))"

definition lastTurnMatch :: match where
  "lastTurnMatch =
     \<lparr>matchId = ''m1'',
      players = [newEntry ''sa'' alice, newEntry ''sb'' bob],
      battleState =
        \<lparr>turn = 5,
         p1 = (toCombatant (newEntry ''sa'' alice))\<lparr>hp := 25, action := Some ''attack''\<rparr>,
         p2 = (toCombatant (newEntry ''sb'' bob))\<lparr>hp := 15, action := Some ''attack''\<rparr>,
         status = Resolving\<rparr>,
      startedAt = 1\<rparr>"

text \<open>The winner and the turn result that lines 671-737 compute for a battle state.\<close>

definition winnerOf :: "battle_state \<Rightarrow> real \<Rightarrow> real \<Rightarrow> string option" where
  "winnerOf battle u1 u2 = (case resolveBattle battle u1 u2 of (q1, q2, tr, w) \<Rightarrow> w)"

definition turnResultOf :: "battle_state \<Rightarrow> real \<Rightarrow> real \<Rightarrow> turn_result" where
  "turnResultOf battle u1 u2 = (case resolveBattle battle u1 u2 of (q1, q2, tr, w) \<Rightarrow> tr)"

text \<open>The effects that are calls of the player-profile store.\<close>

definition profileCalls :: "effect list \<Rightarrow> effect list" where
  "profileCalls sent = filter (\<lambda>e. case e of ApplyTrophyDelta p d \<Rightarrow> True | Emit s msg \<Rightarrow> False) sent"

text \<open>
  The states of the scenario after the first turn (A's special is on cooldown 2) and after
  the fourth, and a registry that holds a match in the middle of a resolution.
\<close>

definition afterTurn1 :: server where
  "afterTurn1 = fst (run init (pairing @ take 2 fourTurns))"

definition afterTurn4 :: server where
  "afterTurn4 = fst (run init (pairing @ fourTurns))"

definition resolvingServer :: server where
  "resolvingServer = \<lparr>waitingPlayers = [], activeMatches = [(''m1'', lastTurnMatch)]\<rparr>"

text \<open>
  The states of the scenario in the middle of the first and of the second turn: A has
  submitted (the special, then an attack) and B has not.
\<close>

definition duringTurn1 :: server where
  "duringTurn1 = fst (run init (pairing @ take 1 fourTurns))"

definition duringTurn2 :: server where
  "duringTurn2 = fst (run init (pairing @ take 3 fourTurns))"

text \<open>Two more players, and the state in which only the first player is queued.\<close>

definition carol :: player_data where
  "carol = \<lparr>pd_playerId = ''C'', pd_username = ''carol'', pd_stats = [], pd_trophies = Some 0\<rparr>"

definition dave :: player_data where
  "dave = \<lparr>pd_playerId = ''D'', pd_username = ''dave'', pd_stats = [], pd_trophies = Some 35\<rparr>"

definition queuedA :: server where
  "queuedA = fst (run init (take 1 pairing))"

text \<open>The ids of the entries of \<^verbatim>\<open>activeMatches\<close> in which a socket takes part.\<close>

definition matchesOf :: "string \<Rightarrow> (string \<times> match) list \<Rightarrow> string list" where
  "matchesOf sock ms = map fst (filter (\<lambda>(k, m). list_ex (\<lambda>p. socketId p = sock) (players m)) ms)"

section \<open>Properties of the resolver\<close>

lemma floor_half: "\<lfloor>real_of_int d / 2\<rfloor> = d div 2"
proof -
  have "real_of_int d / 2 = real_of_int d / real_of_int 2" by simp
  then show ?thesis by (simp only: floor_divide_of_int_eq)
qed

lemma mitigate_div2: "mitigate a d = (if a = Some ''defend'' then d div 2 else d)"
  by (simp add: mitigate_def floor_half)

subsection \<open>The rounded product\<close>

lemma ulpFrom_bounds: "0 < s \<Longrightarrow> 0 < ulpFrom n s x \<and> ulpFrom n s x \<le> s"
proof (induction n arbitrary: s)
  case 0
  then show ?case by simp
next
  case (Suc n)
  have "0 < s / 2" using Suc.prems by simp
  from Suc.IH [OF this] show ?case
    using Suc.prems by auto
qed

lemma ulp_bounds: "0 < ulp x \<and> ulp x \<le> 1 / 2 ^ 49"
  unfolding ulp_def by (rule ulpFrom_bounds) simp

lemma ulpFrom_unfold:
  "0 < n \<Longrightarrow> ulpFrom n s x = (if x < s * 2 ^ 52 then ulpFrom (n - 1) (s / 2) x else s)"
  by (cases n) simp_all

lemma ulp_half_to_one: "1 / 2 \<le> x \<Longrightarrow> x < 1 \<Longrightarrow> ulp x = 1 / 2 ^ 53"
  unfolding ulp_def by (simp add: ulpFrom_unfold)

lemma roundHalfEven_error: "\<bar>real_of_int (roundHalfEven y) - y\<bar> \<le> 1 / 2"
proof -
  have "real_of_int \<lfloor>y\<rfloor> \<le> y" "y < real_of_int \<lfloor>y\<rfloor> + 1"
    by linarith+
  then show ?thesis
    unfolding roundHalfEven_def Let_def by (simp split: if_splits)
qed

lemma roundHalfEven_nonneg: "0 \<le> y \<Longrightarrow> 0 \<le> roundHalfEven y"
proof -
  assume "0 \<le> y"
  then have "0 \<le> \<lfloor>y\<rfloor>" by simp
  then show ?thesis
    unfolding roundHalfEven_def Let_def by simp
qed

lemma roundToDouble_error: "\<bar>roundToDouble x - x\<bar> \<le> ulp x / 2"
proof (cases "x = 0")
  case True
  then show ?thesis
    using ulp_bounds [of x] by (simp add: roundToDouble_def)
next
  case False
  define s where "s = ulp x"
  define k where "k = real_of_int (roundHalfEven (x / s))"
  have s: "0 < s" using ulp_bounds [of x] by (simp add: s_def)
  have "roundToDouble x - x = (k - x / s) * s"
    using s False by (simp add: roundToDouble_def s_def [symmetric] k_def left_diff_distrib)
  then have "\<bar>roundToDouble x - x\<bar> = \<bar>k - x / s\<bar> * s"
    using s by (simp add: abs_mult)
  also have "\<dots> \<le> (1 / 2) * s"
    using roundHalfEven_error [of "x / s"] s unfolding k_def by (intro mult_right_mono) simp_all
  finally show ?thesis by (simp add: s_def)
qed

lemma roundToDouble_close:
  "roundToDouble x - x \<le> 1 / 2 ^ 50 \<and> x - roundToDouble x \<le> 1 / 2 ^ 50"
proof -
  have "ulp x / 2 \<le> 1 / 2 ^ 50"
    using ulp_bounds [of x] by simp
  then show ?thesis
    using roundToDouble_error [of x] by linarith
qed

lemma roundToDouble_nonneg: "0 \<le> x \<Longrightarrow> 0 \<le> roundToDouble x"
proof -
  assume x: "0 \<le> x"
  have s: "0 < ulp x" using ulp_bounds by simp
  then have "0 \<le> x / ulp x" using x by simp
  then have "0 \<le> roundHalfEven (x / ulp x)" by (rule roundHalfEven_nonneg)
  then show ?thesis
    unfolding roundToDouble_def using s by simp
qed

lemma double_below_one:
  assumes d: "isDouble u" and u: "u < 1"
  shows "u \<le> 1 - 1 / 2 ^ 53"
proof (cases "1 / 2 \<le> u")
  case False
  then show ?thesis by simp
next
  case True
  have s: "ulp u = 1 / 2 ^ 53"
    using True u by (rule ulp_half_to_one)
  define k where "k = roundHalfEven (u / ulp u)"
  have k: "u = real_of_int k * (1 / 2 ^ 53)"
    using d True by (simp add: isDouble_def roundToDouble_def k_def s)
  have "real_of_int k < real_of_int (2 ^ 53)"
    using u by (simp add: k)
  then have "k < 2 ^ 53" by (simp only: of_int_less_iff)
  then have "k \<le> 2 ^ 53 - 1" by simp
  then have "real_of_int k \<le> real_of_int (2 ^ 53 - 1)" by (simp only: of_int_le_iff)
  then show ?thesis by (simp add: k field_simps)
qed

lemma rand11_range:
  assumes "isDouble u" "0 \<le> u" "u < 1"
  shows "0 \<le> rand11 u \<and> rand11 u \<le> 10"
proof -
  define d :: real where "d = 1 / 2 ^ 50"
  have d: "0 < d" "1 / 2 ^ 53 = d / 8" by (simp_all add: d_def)
  have "0 \<le> roundToDouble (u * 11)"
    using assms(2) by (intro roundToDouble_nonneg) simp
  then have lo: "0 \<le> rand11 u" by (simp add: rand11_def)
  have "u \<le> 1 - d / 8"
    using double_below_one [OF assms(1,3)] by (simp only: d)
  moreover have "roundToDouble (u * 11) - u * 11 \<le> d"
    using roundToDouble_close [of "u * 11", folded d_def] by simp
  ultimately have "roundToDouble (u * 11) < 11" using d(1) by linarith
  then have "rand11 u < 11" by (simp add: rand11_def floor_less_iff)
  then show ?thesis using lo by simp
qed

lemma rand11_inner:
  assumes "real_of_int k + 1 / 2 ^ 50 \<le> u * 11" "u * 11 \<le> real_of_int k + 1 - 1 / 2 ^ 49"
  shows "rand11 u = k"
proof -
  define d :: real where "d = 1 / 2 ^ 50"
  have d: "0 < d" "1 / 2 ^ 49 = 2 * d" by (simp_all add: d_def)
  note e = roundToDouble_close [of "u * 11", folded d_def]
  have a: "real_of_int k + d \<le> u * 11" "u * 11 \<le> real_of_int k + 1 - 2 * d"
    using assms by (simp_all only: d d_def [symmetric])
  have "real_of_int k \<le> roundToDouble (u * 11)"
    using e a by linarith
  moreover have "roundToDouble (u * 11) < real_of_int k + 1"
    using e a d(1) by linarith
  ultimately show ?thesis
    unfolding rand11_def by (simp add: floor_eq_iff)
qed

lemma rand11_outer:
  assumes "rand11 u = k"
  shows "real_of_int k - 1 / 2 ^ 50 \<le> u * 11 \<and> u * 11 < real_of_int k + 1 + 1 / 2 ^ 50"
proof -
  define d :: real where "d = 1 / 2 ^ 50"
  note e = roundToDouble_close [of "u * 11", folded d_def]
  have "real_of_int k \<le> roundToDouble (u * 11)" "roundToDouble (u * 11) < real_of_int k + 1"
    using assms unfolding rand11_def by linarith+
  then have "real_of_int k - d \<le> u * 11 \<and> u * 11 < real_of_int k + 1 + d"
    using e by linarith
  then show ?thesis by (simp only: d_def)
qed



text \<open>
  The rounding is visible just below some multiples of \<open>1/11\<close>: the double
  \<open>0.2727272727272727\<close> is below \<open>3/11\<close>, its exact product with 11 is below 3, and
  the rounded product is 3.
\<close>

lemma roll_below_three_elevenths:
  "isDouble (1228254443828317 / 4503599627370496)
   \<and> (1228254443828317 / 4503599627370496 :: real) * 11 < 3
   \<and> rand11 (1228254443828317 / 4503599627370496) = 3"
  by code_simp

lemma resolveBattle_damage:
  "resolveBattle b u1 u2 = (q1, q2, tr, w) \<Longrightarrow>
   tr_damage tr =
     [(c_playerId (p1 b), mitigate (action (p1 b)) (baseDamage (action (p2 b)) (specialCooldown (p2 b)) u2)),
      (c_playerId (p2 b), mitigate (action (p2 b)) (baseDamage (action (p1 b)) (specialCooldown (p1 b)) u1))]
   \<and> hp q1 = max 0 (hp (p1 b) - mitigate (action (p1 b)) (baseDamage (action (p2 b)) (specialCooldown (p2 b)) u2))
   \<and> hp q2 = max 0 (hp (p2 b) - mitigate (action (p2 b)) (baseDamage (action (p1 b)) (specialCooldown (p1 b)) u1))
   \<and> specialCooldown q1 =
       reduceCooldown (action (p1 b)) (cooldownAfterAction (action (p1 b)) (specialCooldown (p1 b)))
   \<and> specialCooldown q2 =
       reduceCooldown (action (p2 b)) (cooldownAfterAction (action (p2 b)) (specialCooldown (p2 b)))"
  by (auto simp: resolveBattle_def Let_def)

lemma special_sets_two:
  "reduceCooldown (Some ''special'') (cooldownAfterAction (Some ''special'') 0) = 2"
  by (simp add: reduceCooldown_def cooldownAfterAction_def)

text \<open>
  C6. In the resolver, the damage of a side before mitigation is an integer fixed by its
  action: \<open>15 + roll\<close> for an attack, exactly 30 for a special at cooldown 0, which also
  leaves that side's cooldown at 2 after the turn, and 0 for defend and for anything else (a
  special on cooldown too). The turn result and the new HP carry these values, halved when
  the other side defends. The roll is \<^verbatim>\<open>Math.floor(Math.random() * 11)\<close>: for every double
  in \<open>[0, 1)\<close> it lies in \<open>[0, 10]\<close>, so an attack gives a value in \<open>[15, 25]\<close>, and each
  of the eleven values is given by some double. The roll is \<open>k\<close> when the exact product
  lies in \<open>[k + 2^(-50), k + 1 - 2^(-49)]\<close> and only when it lies within \<open>2^(-50)\<close> of
  \<open>[k, k + 1)\<close>: the values of \<^verbatim>\<open>Math.random()\<close> that give a roll fill an interval of
  width \<open>1/11\<close> up to the rounding of the product, the same for each roll.
\<close>

theorem base_damage_by_action:
  "(case resolveBattle b u1 u2 of
      (q1, q2, tr, w) \<Rightarrow>
        (let base = (\<lambda>a cd roll. if a = Some ''attack'' then 15 + roll
                                  else if a = Some ''special'' \<and> cd = 0 then 30
                                  else (0::int));
             halved = (\<lambda>defender d. if defender = Some ''defend'' then d div 2 else d);
             d1 = base (action (p1 b)) (specialCooldown (p1 b)) (rand11 u1);
             d2 = base (action (p2 b)) (specialCooldown (p2 b)) (rand11 u2)
         in baseDamage (action (p1 b)) (specialCooldown (p1 b)) u1 = d1
            \<and> baseDamage (action (p2 b)) (specialCooldown (p2 b)) u2 = d2
            \<and> tr_damage tr = [(c_playerId (p1 b), halved (action (p1 b)) d2),
                               (c_playerId (p2 b), halved (action (p2 b)) d1)]
            \<and> hp q1 = max 0 (hp (p1 b) - halved (action (p1 b)) d2)
            \<and> hp q2 = max 0 (hp (p2 b) - halved (action (p2 b)) d1)
            \<and> (action (p1 b) = Some ''special'' \<and> specialCooldown (p1 b) = 0 \<longrightarrow>
                 specialCooldown q1 = 2)
            \<and> (action (p2 b) = Some ''special'' \<and> specialCooldown (p2 b) = 0 \<longrightarrow>
                 specialCooldown q2 = 2)))
   \<and> (isDouble u \<and> 0 \<le> u \<and> u < 1 \<longrightarrow>
        0 \<le> rand11 u \<and> rand11 u \<le> 10
        \<and> 15 \<le> baseDamage (Some ''attack'') cd u \<and> baseDamage (Some ''attack'') cd u \<le> 25)
   \<and> (real_of_int k + 1 / 2 ^ 50 \<le> u * 11 \<and> u * 11 \<le> real_of_int k + 1 - 1 / 2 ^ 49 \<longrightarrow>
        rand11 u = k)
   \<and> (rand11 u = k \<longrightarrow>
        real_of_int k - 1 / 2 ^ 50 \<le> u * 11 \<and> u * 11 < real_of_int k + 1 + 1 / 2 ^ 50)
   \<and> list_all (\<lambda>v. isDouble v \<and> 0 \<le> v \<and> v < 1)
        [0, 1 / 8, 3 / 16, 5 / 16, 3 / 8, 1 / 2, 9 / 16, 11 / 16, 3 / 4, 7 / 8, 15 / 16]
   \<and> map rand11 [0, 1 / 8, 3 / 16, 5 / 16, 3 / 8, 1 / 2, 9 / 16, 11 / 16, 3 / 4, 7 / 8, 15 / 16]
       = [0, 1, 2, 3, 4, 5, 6, 7, 8, 9, 10]"
proof (intro conjI impI)
  obtain q1 q2 tr w where rb: "resolveBattle b u1 u2 = (q1, q2, tr, w)"
    by (cases "resolveBattle b u1 u2") auto
  note d = resolveBattle_damage [OF rb]
  have s1: "specialCooldown q1 = 2"
    if "action (p1 b) = Some ''special''" "specialCooldown (p1 b) = 0"
    using d that by (simp add: special_sets_two)
  have s2: "specialCooldown q2 = 2"
    if "action (p2 b) = Some ''special''" "specialCooldown (p2 b) = 0"
    using d that by (simp add: special_sets_two)
  show "case resolveBattle b u1 u2 of
      (q1, q2, tr, w) \<Rightarrow>
        (let base = (\<lambda>a cd roll. if a = Some ''attack'' then 15 + roll
                                  else if a = Some ''special'' \<and> cd = 0 then 30
                                  else (0::int));
             halved = (\<lambda>defender d. if defender = Some ''defend'' then d div 2 else d);
             d1 = base (action (p1 b)) (specialCooldown (p1 b)) (rand11 u1);
             d2 = base (action (p2 b)) (specialCooldown (p2 b)) (rand11 u2)
         in baseDamage (action (p1 b)) (specialCooldown (p1 b)) u1 = d1
            \<and> baseDamage (action (p2 b)) (specialCooldown (p2 b)) u2 = d2
            \<and> tr_damage tr = [(c_playerId (p1 b), halved (action (p1 b)) d2),
                               (c_playerId (p2 b), halved (action (p2 b)) d1)]
            \<and> hp q1 = max 0 (hp (p1 b) - halved (action (p1 b)) d2)
            \<and> hp q2 = max 0 (hp (p2 b) - halved (action (p2 b)) d1)
            \<and> (action (p1 b) = Some ''special'' \<and> specialCooldown (p1 b) = 0 \<longrightarrow>
                 specialCooldown q1 = 2)
            \<and> (action (p2 b) = Some ''special'' \<and> specialCooldown (p2 b) = 0 \<longrightarrow>
                 specialCooldown q2 = 2))"
    unfolding rb prod.case Let_def
    apply (intro conjI impI)
    subgoal by (simp only: baseDamage_def)
    subgoal by (simp only: baseDamage_def)
    subgoal using d by (simp only: mitigate_div2 baseDamage_def)
    subgoal using d by (simp only: mitigate_div2 baseDamage_def)
    subgoal using d by (simp only: mitigate_div2 baseDamage_def)
    subgoal using s1 by blast
    subgoal using s2 by blast
    done
next
  assume u: "isDouble u \<and> 0 \<le> u \<and> u < 1"
  then have r: "0 \<le> rand11 u \<and> rand11 u \<le> 10"
    using rand11_range by blast
  then show "0 \<le> rand11 u" "rand11 u \<le> 10"
    "15 \<le> baseDamage (Some ''attack'') cd u" "baseDamage (Some ''attack'') cd u \<le> 25"
    by (simp_all add: baseDamage_def)
next
  assume "real_of_int k + 1 / 2 ^ 50 \<le> u * 11 \<and> u * 11 \<le> real_of_int k + 1 - 1 / 2 ^ 49"
  then show "rand11 u = k"
    using rand11_inner by blast
next
  assume "rand11 u = k"
  from rand11_outer [OF this]
  show "real_of_int k - 1 / 2 ^ 50 \<le> u * 11" "u * 11 < real_of_int k + 1 + 1 / 2 ^ 50"
    by simp_all
next
  show "list_all (\<lambda>v. isDouble v \<and> 0 \<le> v \<and> v < 1)
        [0, 1 / 8, 3 / 16, 5 / 16, 3 / 8, 1 / 2, 9 / 16, 11 / 16, 3 / 4, 7 / 8, 15 / 16]"
    by code_simp
  show "map rand11 [0, 1 / 8, 3 / 16, 5 / 16, 3 / 8, 1 / 2, 9 / 16, 11 / 16, 3 / 4, 7 / 8, 15 / 16]
       = [0, 1, 2, 3, 4, 5, 6, 7, 8, 9, 10]"
    by code_simp
qed

theorem base_damage_by_action_witness:
  "(case resolveBattle bothSpecial (1 / 2) (1 / 2) of
      (q1, q2, tr, w) \<Rightarrow>
        tr_damage tr = [(''A'', 30), (''B'', 30)] \<and> hp q1 = 70 \<and> hp q2 = 70
        \<and> specialCooldown q1 = 2 \<and> specialCooldown q2 = 2)
   \<and> isDouble (1 / 2) \<and> rand11 (1 / 2) = 5
   \<and> baseDamage (Some ''attack'') 0 (1 / 2) = 20
   \<and> 15 \<le> baseDamage (Some ''attack'') 0 (1 / 2) \<and> baseDamage (Some ''attack'') 0 (1 / 2) \<le> 25
   \<and> real_of_int 5 - 1 / 2 ^ 50 \<le> (1 / 2) * 11"
proof -
  note T = base_damage_by_action
  have f: "action (p1 bothSpecial) = Some ''special'' \<and> specialCooldown (p1 bothSpecial) = 0"
    "action (p2 bothSpecial) = Some ''special'' \<and> specialCooldown (p2 bothSpecial) = 0"
    "c_playerId (p1 bothSpecial) = ''A''" "c_playerId (p2 bothSpecial) = ''B''"
    "hp (p1 bothSpecial) = 100" "hp (p2 bothSpecial) = 100"
    by (simp_all add: bothSpecial_def withActions_def createBattleState_def toCombatant_def
          newEntry_def alice_def bob_def)
  obtain q1 q2 tr w where rb: "resolveBattle bothSpecial (1 / 2) (1 / 2) = (q1, q2, tr, w)"
    by (cases "resolveBattle bothSpecial (1 / 2) (1 / 2)") auto
  note T1 = T [where b = bothSpecial and ?u1.0 = "1 / 2" and ?u2.0 = "1 / 2",
      THEN conjunct1, unfolded rb prod.case Let_def]
  have dmg: "tr_damage tr = [(''A'', 30), (''B'', 30)]"
    using T1 [THEN conjunct2, THEN conjunct2, THEN conjunct1] by (simp add: f)
  have h1: "hp q1 = 70"
    using T1 [THEN conjunct2, THEN conjunct2, THEN conjunct2, THEN conjunct1] by (simp add: f)
  have h2: "hp q2 = 70"
    using T1 [THEN conjunct2, THEN conjunct2, THEN conjunct2, THEN conjunct2, THEN conjunct1]
    by (simp add: f)
  have c1: "specialCooldown q1 = 2"
    using T1 [THEN conjunct2, THEN conjunct2, THEN conjunct2, THEN conjunct2, THEN conjunct2,
        THEN conjunct1, THEN mp, OF f(1)] .
  have c2: "specialCooldown q2 = 2"
    using T1 [THEN conjunct2, THEN conjunct2, THEN conjunct2, THEN conjunct2, THEN conjunct2,
        THEN conjunct2, THEN mp, OF f(2)] .
  have d: "isDouble (1 / 2) \<and> (0::real) \<le> 1 / 2 \<and> (1 / 2 :: real) < 1"
    by code_simp
  note T2 = T [where u = "1 / 2" and cd = 0 and k = 5, THEN conjunct2]
  have r: "0 \<le> rand11 (1 / 2) \<and> rand11 (1 / 2) \<le> 10
        \<and> 15 \<le> baseDamage (Some ''attack'') 0 (1 / 2) \<and> baseDamage (Some ''attack'') 0 (1 / 2) \<le> 25"
    using T2 [THEN conjunct1, THEN mp, OF d] .
  have i: "real_of_int 5 + 1 / 2 ^ 50 \<le> (1 / 2) * 11 \<and> (1 / 2) * 11 \<le> real_of_int 5 + 1 - 1 / 2 ^ 49"
    by simp
  have k: "rand11 (1 / 2) = 5"
    using T2 [THEN conjunct2, THEN conjunct1, THEN mp, OF i] .
  have o: "real_of_int 5 - 1 / 2 ^ 50 \<le> (1 / 2) * 11"
    using T2 [THEN conjunct2, THEN conjunct2, THEN conjunct1, THEN mp, OF k] by (rule conjunct1)
  have b: "baseDamage (Some ''attack'') 0 (1 / 2) = 20"
    by (simp add: baseDamage_def k)
  show ?thesis
    unfolding rb prod.case
    using dmg h1 h2 c1 c2 d r k o b by (intro conjI) simp_all
qed

text \<open>
  C7. What a side deals is its base damage, halved and floored exactly when the other side
  defends; whether the side itself defends does not enter. From full HP, player 1 attacking
  with roll 20 against a defending player 2 leaves the HP at 100 and 90.
\<close>

theorem defend_halves_opponent_damage:
  "(case resolveBattle b u1 u2 of
      (p1', p2', tr, w) \<Rightarrow>
        (let out1 = baseDamage (action (p1 b)) (specialCooldown (p1 b)) u1;
             out2 = baseDamage (action (p2 b)) (specialCooldown (p2 b)) u2;
             dealt1 = (if action (p2 b) = Some ''defend'' then out1 div 2 else out1);
             dealt2 = (if action (p1 b) = Some ''defend'' then out2 div 2 else out2)
         in tr_damage tr = [(c_playerId (p1 b), dealt2), (c_playerId (p2 b), dealt1)]
            \<and> hp p1' = max 0 (hp (p1 b) - dealt2)
            \<and> hp p2' = max 0 (hp (p2 b) - dealt1)))
   \<and> (rand11 u1 = 5 \<longrightarrow>
        (case resolveBattle (withActions (createBattleState e1 e2) (Some ''attack'') (Some ''defend'')) u1 u2 of
           (p1', p2', tr, w) \<Rightarrow>
             hp p1' = 100 \<and> hp p2' = 90
             \<and> tr_hp tr = [(playerId e1, 100), (playerId e2, 90)] \<and> w = None))"
proof (rule conjI)
  show "case resolveBattle b u1 u2 of
      (p1', p2', tr, w) \<Rightarrow>
        (let out1 = baseDamage (action (p1 b)) (specialCooldown (p1 b)) u1;
             out2 = baseDamage (action (p2 b)) (specialCooldown (p2 b)) u2;
             dealt1 = (if action (p2 b) = Some ''defend'' then out1 div 2 else out1);
             dealt2 = (if action (p1 b) = Some ''defend'' then out2 div 2 else out2)
         in tr_damage tr = [(c_playerId (p1 b), dealt2), (c_playerId (p2 b), dealt1)]
            \<and> hp p1' = max 0 (hp (p1 b) - dealt2)
            \<and> hp p2' = max 0 (hp (p2 b) - dealt1))"
    by (simp add: resolveBattle_def Let_def mitigate_div2)
next
  show "rand11 u1 = 5 \<longrightarrow>
        (case resolveBattle (withActions (createBattleState e1 e2) (Some ''attack'') (Some ''defend'')) u1 u2 of
           (p1', p2', tr, w) \<Rightarrow>
             hp p1' = 100 \<and> hp p2' = 90
             \<and> tr_hp tr = [(playerId e1, 100), (playerId e2, 90)] \<and> w = None)"
    by (simp add: resolveBattle_def Let_def mitigate_div2 withActions_def createBattleState_def
        toCombatant_def baseDamage_def checkWinner_def)
qed

theorem defend_halves_opponent_damage_witness:
  "rand11 (1/2) = 5
   \<and> (case resolveBattle (withActions (createBattleState
          \<lparr>socketId = ''s1'', playerId = ''A'', username = ''a'', stats = [], trophies = 0\<rparr>
          \<lparr>socketId = ''s2'', playerId = ''B'', username = ''b'', stats = [], trophies = 0\<rparr>)
          (Some ''attack'') (Some ''defend'')) (1/2) 0 of
        (p1', p2', tr, w) \<Rightarrow> hp p1' = 100 \<and> hp p2' = 90 \<and> tr_hp tr = [(''A'', 100), (''B'', 90)] \<and> w = None)"
proof -
  have h: "rand11 (1/2) = 5" by code_simp
  have "case resolveBattle (withActions (createBattleState
          \<lparr>socketId = ''s1'', playerId = ''A'', username = ''a'', stats = [], trophies = 0\<rparr>
          \<lparr>socketId = ''s2'', playerId = ''B'', username = ''b'', stats = [], trophies = 0\<rparr>)
          (Some ''attack'') (Some ''defend'')) (1/2) 0 of
        (p1', p2', tr, w) \<Rightarrow> hp p1' = 100 \<and> hp p2' = 90
          \<and> tr_hp tr = [(playerId \<lparr>socketId = ''s1'', playerId = ''A'', username = ''a'', stats = [], trophies = 0\<rparr>, 100),
                        (playerId \<lparr>socketId = ''s2'', playerId = ''B'', username = ''b'', stats = [], trophies = 0\<rparr>, 90)] \<and> w = None"
    by (rule defend_halves_opponent_damage [THEN conjunct2, rule_format, OF h])
  with h show ?thesis by simp
qed

section \<open>Invariants of the reachable states\<close>

lemma cooldown_step:
  "cd = 0 \<or> cd = 1 \<or> cd = 2 \<Longrightarrow>
   reduceCooldown a (cooldownAfterAction a cd) = 0
   \<or> reduceCooldown a (cooldownAfterAction a cd) = 1
   \<or> reduceCooldown a (cooldownAfterAction a cd) = 2"
  unfolding reduceCooldown_def cooldownAfterAction_def
  by (cases "a = Some ''attack''"; cases "a = Some ''special''"; elim disjE; simp)

lemma resolveBattle_fields:
  "resolveBattle b u1 u2 = (q1, q2, tr, w) \<Longrightarrow>
   c_playerId q1 = c_playerId (p1 b) \<and> c_playerId q2 = c_playerId (p2 b)
   \<and> action q1 = action (p1 b) \<and> action q2 = action (p2 b)
   \<and> specialCooldown q1 = reduceCooldown (action (p1 b)) (cooldownAfterAction (action (p1 b)) (specialCooldown (p1 b)))
   \<and> specialCooldown q2 = reduceCooldown (action (p2 b)) (cooldownAfterAction (action (p2 b)) (specialCooldown (p2 b)))"
  by (auto simp: resolveBattle_def Let_def)

lemma resolveBattle_cooldown_ok:
  assumes "resolveBattle b u1 u2 = (q1, q2, tr, w)" "cooldown_ok (p1 b)" "cooldown_ok (p2 b)"
  shows "cooldown_ok q1 \<and> cooldown_ok q2"
proof -
  note f = resolveBattle_fields [OF assms(1)]
  have "cooldown_ok q1"
    using cooldown_step [of "specialCooldown (p1 b)" "action (p1 b)"] assms(2) f
    unfolding cooldown_ok_def by simp
  moreover have "cooldown_ok q2"
    using cooldown_step [of "specialCooldown (p2 b)" "action (p2 b)"] assms(3) f
    unfolding cooldown_ok_def by simp
  ultimately show ?thesis by simp
qed


lemma list_all_update:
  "list_all P al \<Longrightarrow> P (k, v) \<Longrightarrow> list_all P (AList.update k v al)"
  by (induction al) auto

lemma list_all_delete: "list_all P al \<Longrightarrow> list_all P (AList.delete k al)"
  by (simp add: AList.delete_eq list_all_iff)

lemma map_of_list_all: "list_all P al \<Longrightarrow> map_of al k = Some v \<Longrightarrow> P (k, v)"
  by (auto simp: list_all_iff dest: map_of_SomeD)

lemma forEachMatch_keeps:
  "list_all P am \<Longrightarrow> distinct (map fst am) \<Longrightarrow>
   list_all P (fst (forEachMatch sock ms am)) \<and> distinct (map fst (fst (forEachMatch sock ms am)))"
proof (induction ms arbitrary: am)
  case Nil
  then show ?case by simp
next
  case (Cons x ms)
  obtain k m where x: "x = (k, m)" by (cases x)
  have d: "list_all P (AList.delete k am)" "distinct (map fst (AList.delete k am))"
    using Cons.prems by (simp_all add: list_all_delete distinct_delete)
  show ?case
    using Cons.IH [OF d] Cons.IH [OF Cons.prems] by (simp add: x split_beta)
qed

lemma setAction_keeps:
  "c_playerId (p1 (setAction b pid a)) = c_playerId (p1 b)"
  "c_playerId (p2 (setAction b pid a)) = c_playerId (p2 b)"
  "specialCooldown (p1 (setAction b pid a)) = specialCooldown (p1 b)"
  "specialCooldown (p2 (setAction b pid a)) = specialCooldown (p2 b)"
  "status (setAction b pid a) = status b"
  by (simp_all add: setAction_def)

lemma setAction_action:
  "action (p1 (setAction b pid a)) = (if pid = c_playerId (p1 b) then Some a else action (p1 b))"
  "action (p2 (setAction b pid a)) =
     (if pid \<noteq> c_playerId (p1 b) \<and> pid = c_playerId (p2 b) then Some a else action (p2 b))"
  by (simp_all add: setAction_def)

lemma match_wf_cong:
  "players m' = players m \<Longrightarrow>
   c_playerId (p1 (battleState m')) = c_playerId (p1 (battleState m)) \<Longrightarrow>
   c_playerId (p2 (battleState m')) = c_playerId (p2 (battleState m)) \<Longrightarrow>
   match_wf m' = match_wf m"
  by (simp add: match_wf_def split: list.splits)

lemma match_ok_setAction:
  assumes ok: "match_ok m"
    and cd: "a = ''special'' \<Longrightarrow> lookupPlayer (battleState m) pid = Some c \<and> specialCooldown c \<le> 0"
  shows "match_ok (m\<lparr>battleState := setAction (battleState m) pid a\<rparr>)"
proof -
  have wf: "match_wf (m\<lparr>battleState := setAction (battleState m) pid a\<rparr>) = match_wf m"
    by (rule match_wf_cong) (simp_all add: setAction_keeps)
  have c1: "cooldown_ok (p1 (battleState m))" and c2: "cooldown_ok (p2 (battleState m))"
    using ok by (simp_all add: match_ok_def)
  have p1: "pending_ok (p1 (setAction (battleState m) pid a))"
  proof (cases "a = ''special'' \<and> pid = c_playerId (p1 (battleState m))")
    case True
    then have "specialCooldown (p1 (battleState m)) \<le> 0"
      using cd by (auto simp: lookupPlayer_def)
    then have "specialCooldown (p1 (battleState m)) = 0"
      using c1 by (auto simp: cooldown_ok_def)
    then show ?thesis by (simp add: pending_ok_def setAction_keeps)
  next
    case False
    then show ?thesis
      using ok by (auto simp: pending_ok_def match_ok_def setAction_keeps setAction_action)
  qed
  have p2: "pending_ok (p2 (setAction (battleState m) pid a))"
  proof (cases "a = ''special'' \<and> pid \<noteq> c_playerId (p1 (battleState m))
                \<and> pid = c_playerId (p2 (battleState m))")
    case True
    then have "specialCooldown (p2 (battleState m)) \<le> 0"
      using cd by (auto simp: lookupPlayer_def)
    then have "specialCooldown (p2 (battleState m)) = 0"
      using c2 by (auto simp: cooldown_ok_def)
    then show ?thesis by (simp add: pending_ok_def setAction_keeps)
  next
    case False
    then show ?thesis
      using ok by (auto simp: pending_ok_def match_ok_def setAction_keeps setAction_action)
  qed
  show ?thesis
    using ok wf p1 p2 by (simp add: match_ok_def cooldown_ok_def setAction_keeps)
qed

text \<open>What \<^verbatim>\<open>resolveTurn\<close> leaves behind: a finished match that is deleted, or a match ready for the next turn.\<close>

lemma resolveTurn_result:
  assumes r: "resolveTurn mId m srv u1 u2 = (m3, srv2, sent)"
    and m: "match_wf m" "cooldown_ok (p1 (battleState m))" "cooldown_ok (p2 (battleState m))"
  shows "match_wf m3 \<and> cooldown_ok (p1 (battleState m3)) \<and> cooldown_ok (p2 (battleState m3))
         \<and> ((status (battleState m3) = Finished
              \<and> action (p1 (battleState m3)) = action (p1 (battleState m))
              \<and> action (p2 (battleState m3)) = action (p2 (battleState m))
              \<and> srv2 = srv\<lparr>activeMatches := AList.delete mId (activeMatches srv)\<rparr>)
             \<or> (match_ok m3
                 \<and> srv2 = srv\<lparr>activeMatches := AList.update mId m3 (activeMatches srv)\<rparr>))"
proof -
  obtain q1 q2 tr w where rb: "resolveBattle (battleState m) u1 u2 = (q1, q2, tr, w)"
    by (cases "resolveBattle (battleState m) u1 u2") auto
  note f = resolveBattle_fields [OF rb]
  note c = resolveBattle_cooldown_ok [OF rb m(2,3)]
  show ?thesis
  proof (cases "truthy w")
    case True
    define m' where "m' = m\<lparr>battleState := (battleState m)\<lparr>p1 := q1, p2 := q2, status := Finished\<rparr>\<rparr>"
    have e: "m3 = m'" "srv2 = srv\<lparr>activeMatches := AList.delete mId (activeMatches srv)\<rparr>"
      using r True by (auto simp add: resolveTurn_def rb Let_def m'_def)
    have "match_wf m' = match_wf m"
      by (rule match_wf_cong) (simp_all add: m'_def f)
    then show ?thesis
      using m(1) c e f by (simp add: m'_def)
  next
    case False
    define m' where "m' = m\<lparr>battleState :=
                        (battleState m)\<lparr>turn := turn (battleState m) + 1,
                               p1 := q1\<lparr>action := None\<rparr>, p2 := q2\<lparr>action := None\<rparr>,
                               status := WaitingActions\<rparr>\<rparr>"
    have e: "m3 = m'" "srv2 = srv\<lparr>activeMatches := AList.update mId m' (activeMatches srv)\<rparr>"
      using r False by (auto simp add: resolveTurn_def rb Let_def m'_def)
    have wf: "match_wf m' = match_wf m"
      by (rule match_wf_cong) (simp_all add: m'_def f)
    then have "match_ok m'"
      using m(1) c by (simp add: match_ok_def m'_def cooldown_ok_def pending_ok_def)
    then show ?thesis
      using e wf m(1) c by (simp add: match_ok_def)
  qed
qed

text \<open>The same for an accepted submission, resolved or not.\<close>

lemma acceptAction_result:
  assumes ok: "match_ok m"
    and cd: "act = ''special'' \<Longrightarrow>
             lookupPlayer (battleState m) (playerId player) = Some c \<and> specialCooldown c \<le> 0"
    and a: "acceptAction sock mId act u1 u2 srv m player = (srv', sent, w)"
  shows "\<exists>m'. w = Some m' \<and> match_wf m'
           \<and> cooldown_ok (p1 (battleState m')) \<and> cooldown_ok (p2 (battleState m'))
           \<and> ((status (battleState m') = Finished
                \<and> action (p1 (battleState m')) \<noteq> None \<and> action (p2 (battleState m')) \<noteq> None
                \<and> (\<exists>m1. srv' = srv\<lparr>activeMatches :=
                             AList.delete mId (AList.update mId m1 (activeMatches srv))\<rparr>))
               \<or> (match_ok m'
                   \<and> (srv' = srv\<lparr>activeMatches := AList.update mId m' (activeMatches srv)\<rparr>
                      \<or> (\<exists>m1. srv' = srv\<lparr>activeMatches :=
                             AList.update mId m' (AList.update mId m1 (activeMatches srv))\<rparr>))))"
proof -
  define m1 where "m1 = m\<lparr>battleState := setAction (battleState m) (playerId player) act\<rparr>"
  define srv1 where "srv1 = srv\<lparr>activeMatches := AList.update mId m1 (activeMatches srv)\<rparr>"
  define m2 where "m2 = m1\<lparr>battleState := (battleState m1)\<lparr>status := Resolving\<rparr>\<rparr>"
  have ok1: "match_ok m1"
    unfolding m1_def using ok cd by (rule match_ok_setAction)
  show ?thesis
  proof (cases "action (p1 (battleState m1)) \<noteq> None \<and> action (p2 (battleState m1)) \<noteq> None")
    case False
    then have "srv' = srv1 \<and> w = Some m1"
      using a unfolding acceptAction_def Let_def m1_def [symmetric] srv1_def [symmetric]
      by auto
    then show ?thesis
      using ok1 by (auto simp: srv1_def match_ok_def)
  next
    case True
    have "match_wf m2 = match_wf m1"
      by (rule match_wf_cong) (simp_all add: m2_def)
    then have m2: "match_wf m2" "cooldown_ok (p1 (battleState m2))" "cooldown_ok (p2 (battleState m2))"
      using ok1 by (simp_all add: m2_def match_ok_def cooldown_ok_def)
    obtain m3 srv2 sent2 where r: "resolveTurn mId m2 srv1 u1 u2 = (m3, srv2, sent2)"
      by (cases "resolveTurn mId m2 srv1 u1 u2") auto
    have e: "srv' = srv2 \<and> w = Some m3"
      using a True
      unfolding acceptAction_def Let_def m1_def [symmetric] srv1_def [symmetric] m2_def [symmetric]
      by (auto simp: r)
    have act2: "action (p1 (battleState m2)) \<noteq> None \<and> action (p2 (battleState m2)) \<noteq> None"
      using True by (simp add: m2_def)
    from resolveTurn_result [OF r m2] show ?thesis
      using e act2 by (auto simp: srv1_def)
  qed
qed

lemma server_inv_update:
  "server_inv srv \<Longrightarrow> match_ok m \<Longrightarrow>
   server_inv (srv\<lparr>activeMatches := AList.update k m (activeMatches srv)\<rparr>)"
  by (simp add: server_inv_def list_all_update distinct_update)

lemma server_inv_delete:
  "server_inv srv \<Longrightarrow> server_inv (srv\<lparr>activeMatches := AList.delete k (activeMatches srv)\<rparr>)"
  by (simp add: server_inv_def list_all_delete distinct_delete)

lemma update_update_same: "AList.update k v (AList.update k w al) = AList.update k v al"
  by (induction al) auto

lemma delete_update_same: "AList.delete k (AList.update k w al) = AList.delete k al"
  by (induction al) auto

lemma acceptAction_inv:
  assumes s: "server_inv srv" and ok: "match_ok m"
    and cd: "act = ''special'' \<Longrightarrow>
             lookupPlayer (battleState m) (playerId player) = Some c \<and> specialCooldown c \<le> 0"
  shows "server_inv (fst (acceptAction sock mId act u1 u2 srv m player))"
proof -
  obtain srv' sent w where a: "acceptAction sock mId act u1 u2 srv m player = (srv', sent, w)"
    by (cases "acceptAction sock mId act u1 u2 srv m player") auto
  from acceptAction_result [OF ok cd a] show ?thesis
    using s by (auto simp: a update_update_same delete_update_same
        intro: server_inv_update server_inv_delete)
qed

text \<open>The checks of the handler, as the cases its result can come from.\<close>

lemma pvp_submit_action_cases:
  "pvp_submit_action sock mId act u1 u2 srv = (srv, [], None)
   \<or> pvp_submit_action sock mId act u1 u2 srv =
        (srv, [Emit sock (ActionError ''Special is on cooldown!'')], None)
   \<or> (\<exists>m player c.
        map_of (activeMatches srv) mId = Some m
        \<and> find (\<lambda>p. socketId p = sock) (players m) = Some player
        \<and> lookupPlayer (battleState m) (playerId player) = Some c
        \<and> (act = ''special'' \<longrightarrow> specialCooldown c \<le> 0)
        \<and> pvp_submit_action sock mId act u1 u2 srv = acceptAction sock mId act u1 u2 srv m player
        \<and> status (battleState m) = WaitingActions \<and> \<not> truthy (action c)
        \<and> act \<in> set [''attack'', ''defend'', ''special''])"
  unfolding pvp_submit_action_def by (simp split: option.splits)

lemma stored_match_ok:
  "server_inv srv \<Longrightarrow> map_of (activeMatches srv) mId = Some m \<Longrightarrow> match_ok m"
  using map_of_list_all [of "\<lambda>(k, m). match_ok m" "activeMatches srv" mId m]
  by (simp add: server_inv_def)

lemma pvp_submit_action_inv:
  assumes s: "server_inv srv"
  shows "server_inv (fst (pvp_submit_action sock mId act u1 u2 srv))"
  using pvp_submit_action_cases [of sock mId act u1 u2 srv]
proof (elim disjE exE conjE)
  fix m player c
  assume m: "map_of (activeMatches srv) mId = Some m"
    and c: "lookupPlayer (battleState m) (playerId player) = Some c"
      "act = ''special'' \<longrightarrow> specialCooldown c \<le> 0"
    and e: "pvp_submit_action sock mId act u1 u2 srv = acceptAction sock mId act u1 u2 srv m player"
  have ok: "match_ok m"
    using s m by (rule stored_match_ok)
  have "server_inv (fst (acceptAction sock mId act u1 u2 srv m player))"
    using s ok
  proof (rule acceptAction_inv)
    assume "act = ''special''"
    then show "lookupPlayer (battleState m) (playerId player) = Some c \<and> specialCooldown c \<le> 0"
      using c by simp
  qed
  then show ?thesis by (simp add: e)
qed (simp_all add: s)

lemma short_queue_cases:
  "length q \<le> 1 \<Longrightarrow> q = [] \<or> (\<exists>x. q = [x])"
  by (cases q) (auto simp: length_Suc_conv)

lemma enqueue_short:
  assumes "length q \<le> 1"
  shows "enqueue sock pd q = [newEntry sock pd]
         \<or> (\<exists>x. q = [x] \<and> playerId x \<noteq> pd_playerId pd \<and> enqueue sock pd q = [x, newEntry sock pd])"
  using short_queue_cases [OF assms] by (auto simp: enqueue_def split: if_splits)

lemma match_ok_created:
  "playerId e1 \<noteq> playerId e2 \<Longrightarrow>
   match_ok \<lparr>matchId = uuid, players = [e1, e2], battleState = createBattleState e1 e2, startedAt = now\<rparr>"
  by (simp add: match_ok_def match_wf_def cooldown_ok_def pending_ok_def createBattleState_def
        toCombatant_def)

lemma pvp_queue_inv:
  assumes s: "server_inv srv"
  shows "server_inv (fst (pvp_queue sock pd uuid now srv))"
proof -
  have len: "length (waitingPlayers srv) \<le> 1"
    using s by (simp add: server_inv_def)
  from enqueue_short [OF len, of sock pd] show ?thesis
  proof
    assume "enqueue sock pd (waitingPlayers srv) = [newEntry sock pd]"
    then show ?thesis
      using s by (simp add: pvp_queue_def tryMatchPlayers_def server_inv_def)
  next
    assume "\<exists>x. waitingPlayers srv = [x] \<and> playerId x \<noteq> pd_playerId pd
              \<and> enqueue sock pd (waitingPlayers srv) = [x, newEntry sock pd]"
    then obtain x where x: "playerId x \<noteq> pd_playerId pd"
      and e: "enqueue sock pd (waitingPlayers srv) = [x, newEntry sock pd]"
      by blast
    have "playerId x \<noteq> playerId (newEntry sock pd)"
      using x by (simp add: newEntry_def)
    then have "match_ok \<lparr>matchId = uuid, players = [x, newEntry sock pd],
                 battleState = createBattleState x (newEntry sock pd), startedAt = now\<rparr>"
      by (rule match_ok_created)
    then show ?thesis
      using s e
      by (simp add: pvp_queue_def tryMatchPlayers_def server_inv_def Let_def
            list_all_update distinct_update)
  qed
qed

lemma length_spliceFirst: "length (spliceFirst P xs) \<le> length xs"
  by (induction xs) auto

lemma pvp_leave_inv: "server_inv srv \<Longrightarrow> server_inv (fst (pvp_leave sock srv))"
  using length_spliceFirst [of "\<lambda>p. socketId p = sock" "waitingPlayers srv"]
  by (simp add: pvp_leave_def server_inv_def)

lemma disconnect_inv:
  assumes "server_inv srv"
  shows "server_inv (fst (disconnect sock srv))"
proof -
  have "list_all (\<lambda>(k, m). match_ok m) (activeMatches srv)" "distinct (map fst (activeMatches srv))"
    using assms by (simp_all add: server_inv_def)
  from forEachMatch_keeps [OF this, of sock "activeMatches srv"] show ?thesis
    using assms length_spliceFirst [of "\<lambda>p. socketId p = sock" "waitingPlayers srv"]
    by (simp add: disconnect_def server_inv_def split_beta)
qed

lemma step_inv: "server_inv srv \<Longrightarrow> server_inv (fst (step srv e))"
proof (cases e)
  case (PvpSubmitAction sock mId act u1 u2)
  assume "server_inv srv"
  from pvp_submit_action_inv [OF this, of sock mId act u1 u2] show ?thesis
    by (simp add: PvpSubmitAction split_beta)
qed (simp_all add: pvp_queue_inv pvp_leave_inv disconnect_inv)

lemma reachable_inv: "reachable srv \<Longrightarrow> server_inv srv"
proof (induction rule: reachable.induct)
  case reachable_init
  show ?case by (simp add: init_def server_inv_def)
next
  case (reachable_step srv e)
  then show ?case by (simp add: step_inv)
qed

lemma reachable_run: "reachable srv \<Longrightarrow> valid_run srv es \<Longrightarrow> reachable (fst (run srv es))"
proof (induction es arbitrary: srv)
  case Nil
  then show ?case by simp
next
  case (Cons e es)
  have "reachable (fst (step srv e))"
    using Cons.prems by (simp add: reachable_step)
  from Cons.IH [OF this] show ?case
    using Cons.prems by (simp add: split_beta)
qed

lemma reachable_session_inv:
  assumes "reachable_session m"
  shows "match_wf m \<and> cooldown_ok (p1 (battleState m)) \<and> cooldown_ok (p2 (battleState m))
         \<and> ((status (battleState m) = Finished
              \<and> action (p1 (battleState m)) \<noteq> None \<and> action (p2 (battleState m)) \<noteq> None)
             \<or> match_ok m)"
  using assms
proof (cases rule: reachable_session.cases)
  case (session_stored srv k)
  have "list_all (\<lambda>(k, m). match_ok m) (activeMatches srv)"
    using reachable_inv [OF session_stored(1)] by (simp add: server_inv_def)
  then have "match_ok m"
    using session_stored(2) by (auto simp: list_all_iff)
  then show ?thesis by (simp add: match_ok_def)
next
  case (session_written srv sock mId act u1 u2 srv' sent)
  note s = reachable_inv [OF session_written(1)]
  from pvp_submit_action_cases [of sock mId act u1 u2 srv] show ?thesis
  proof (elim disjE exE conjE)
    fix m0 player c
    assume m: "map_of (activeMatches srv) mId = Some m0"
      and c: "lookupPlayer (battleState m0) (playerId player) = Some c"
        "act = ''special'' \<longrightarrow> specialCooldown c \<le> 0"
      and e: "pvp_submit_action sock mId act u1 u2 srv = acceptAction sock mId act u1 u2 srv m0 player"
    have ok: "match_ok m0"
      using s m by (rule stored_match_ok)
    have a: "acceptAction sock mId act u1 u2 srv m0 player = (srv', sent, Some m)"
      using e session_written(3) by simp
    have cd: "act = ''special'' \<Longrightarrow>
              lookupPlayer (battleState m0) (playerId player) = Some c \<and> specialCooldown c \<le> 0"
      using c by simp
    from acceptAction_result [OF ok cd a] show ?thesis
      by auto
  qed (simp_all add: session_written(3))
qed

text \<open>
  Every match the server stores has two participants with different player ids, which are
  the ids of its two battle entries: the two keys of \<^verbatim>\<open>battleState.players\<close> differ.
\<close>

lemma reachable_matches_wf:
  assumes "reachable srv" "(k, m) \<in> set (activeMatches srv)"
  shows "match_wf m \<and> c_playerId (p1 (battleState m)) \<noteq> c_playerId (p2 (battleState m))"
proof -
  have "match_wf m"
    using reachable_session_inv [OF session_stored [OF assms]] by simp
  then show ?thesis
    by (auto simp: match_wf_def split: list.splits)
qed

text \<open>The scenario reaches the state before the double knock-out.\<close>

lemma before_double_ko:
  "valid_run init (pairing @ fourTurns @ [PvpSubmitAction ''sa'' ''m1'' ''special'' 0 0])
   \<and> map (\<lambda>(k, m). (k, status (battleState m), summary m)) (activeMatches beforeDoubleKO)
       = [(''m1'', WaitingActions, (25, 0, Some ''special''), (15, 0, None))]"
  by code_simp

lemma reachable_beforeDoubleKO: "reachable beforeDoubleKO"
  unfolding beforeDoubleKO_def
  using reachable_init before_double_ko [THEN conjunct1] by (rule reachable_run)

section \<open>The end of a match\<close>

text \<open>Whenever both stored HP are at or below 0 after a turn, the winner is the second combatant.\<close>

lemma double_ko_second:
  assumes "resolveBattle b u1 u2 = (q1, q2, tr, w)" "hp q1 \<le> 0" "hp q2 \<le> 0"
  shows "hp q1 = 0 \<and> hp q2 = 0 \<and> w = Some (c_playerId (p2 b))"
  using assms by (auto simp: resolveBattle_def Let_def checkWinner_def)

text \<open>
  C1. The claim: when both combatants' HP after damage are at or below 0 in the same turn,
  the side with the strictly higher HP after damage wins; with \<open>-5\<close> for A and \<open>-15\<close>
  for B, A wins. The code evaluated at that turn: the scenario is a valid run that leaves
  A with 25 HP and B with 15 HP, each about to take the 30 damage of a special. The stored
  HP are clamped to 0 before the comparison \<^verbatim>\<open>p1.hp > p2.hp\<close>, which is therefore
  false, and both battle-end notices name B, the second combatant, as the winner.
\<close>

theorem double_knockout_declares_second:
  "valid_run init (pairing @ fourTurns @ [PvpSubmitAction ''sa'' ''m1'' ''special'' 0 0])
   \<and> map (\<lambda>(k, m). (k, summary m)) (activeMatches beforeDoubleKO)
       = [(''m1'', (25, 0, Some ''special''), (15, 0, None))]
   \<and> baseDamage (Some ''special'') 0 0 = 30 \<and> (25 :: int) - 30 = - 5 \<and> (15 :: int) - 30 = - 15
   \<and> snd (step beforeDoubleKO (PvpSubmitAction ''sb'' ''m1'' ''special'' 0 0)) =
       [Emit ''sa'' OpponentReady,
        Emit ''sa'' (TurnResult
          \<lparr>tr_turn = 5,
           tr_actions = [(''A'', Some ''special''), (''B'', Some ''special'')],
           tr_damage = [(''A'', 30), (''B'', 30)],
           tr_hp = [(''A'', 0), (''B'', 0)],
           tr_specialCooldown = [(''A'', 2), (''B'', 2)]\<rparr> ''A'' ''B''),
        Emit ''sb'' (TurnResult
          \<lparr>tr_turn = 5,
           tr_actions = [(''A'', Some ''special''), (''B'', Some ''special'')],
           tr_damage = [(''A'', 30), (''B'', 30)],
           tr_hp = [(''A'', 0), (''B'', 0)],
           tr_specialCooldown = [(''A'', 2), (''B'', 2)]\<rparr> ''B'' ''A''),
        Emit ''sa'' (BattleEnd ''B'' False (- 10)),
        Emit ''sb'' (BattleEnd ''B'' True 20)]"
  by code_simp

lemma final_submission:
  "(case pvp_submit_action ''sb'' ''m1'' ''special'' 0 0 beforeDoubleKO of
      (srv', sent, w) \<Rightarrow> (activeMatches srv', map_option (\<lambda>m. (status (battleState m), summary m)) w))
   = ([], Some (Finished, (0, 2, Some ''special''), (0, 2, Some ''special'')))"
  by code_simp

lemma final_session_reached:
  "\<exists>srv' sent m.
     pvp_submit_action ''sb'' ''m1'' ''special'' 0 0 beforeDoubleKO = (srv', sent, Some m)
     \<and> reachable_session m \<and> status (battleState m) = Finished
     \<and> summary m = ((0, 2, Some ''special''), (0, 2, Some ''special''))
     \<and> activeMatches srv' = []"
proof -
  obtain srv' sent w where r: "pvp_submit_action ''sb'' ''m1'' ''special'' 0 0 beforeDoubleKO = (srv', sent, w)"
    by (cases "pvp_submit_action ''sb'' ''m1'' ''special'' 0 0 beforeDoubleKO") auto
  from final_submission obtain m where m: "w = Some m" "activeMatches srv' = []"
    "status (battleState m) = Finished" "summary m = ((0, 2, Some ''special''), (0, 2, Some ''special''))"
    by (auto simp: r)
  have "reachable_session m"
    using reachable_beforeDoubleKO
  proof (rule session_written)
    show "valid_event beforeDoubleKO (PvpSubmitAction ''sb'' ''m1'' ''special'' 0 0)"
      by code_simp
    show "pvp_submit_action ''sb'' ''m1'' ''special'' 0 0 beforeDoubleKO = (srv', sent, Some m)"
      using r m by simp
  qed
  then show ?thesis
    using m r by simp
qed

text \<open>
  C3, as stated, fails: the match object that the last submission of the scenario leaves
  behind is finished, and both pending actions are still the specials of the final turn.
\<close>

theorem finished_session_keeps_actions:
  "case pvp_submit_action ''sb'' ''m1'' ''special'' 0 0 beforeDoubleKO of
     (srv', sent, Some m) \<Rightarrow>
       reachable_session m \<and> status (battleState m) = Finished
       \<and> action (p1 (battleState m)) = Some ''special''
       \<and> action (p2 (battleState m)) = Some ''special''
   | _ \<Rightarrow> False"
  using final_session_reached by (auto simp: summary_def)

lemma stored_waiting:
  assumes "reachable srv" "(k, m) \<in> set (activeMatches srv)"
  shows "status (battleState m) = WaitingActions"
proof -
  have "list_all (\<lambda>(k, m). match_ok m) (activeMatches srv)"
    using reachable_inv [OF assms(1)] by (simp add: server_inv_def)
  then have "match_ok m"
    using assms(2) by (auto simp: list_all_iff)
  then show ?thesis by (simp add: match_ok_def)
qed

lemma finishing_submission_deletes:
  assumes r: "reachable srv"
    and p: "pvp_submit_action sock mId act u1 u2 srv = (srv', sent, Some m)"
    and f: "status (battleState m) = Finished"
  shows "mId \<notin> fst ` set (activeMatches srv')"
proof -
  note s = reachable_inv [OF r]
  from pvp_submit_action_cases [of sock mId act u1 u2 srv] show ?thesis
  proof (elim disjE exE conjE)
    fix m0 player c
    assume m: "map_of (activeMatches srv) mId = Some m0"
      and c: "lookupPlayer (battleState m0) (playerId player) = Some c"
        "act = ''special'' \<longrightarrow> specialCooldown c \<le> 0"
      and e: "pvp_submit_action sock mId act u1 u2 srv = acceptAction sock mId act u1 u2 srv m0 player"
    have ok: "match_ok m0"
      using s m by (rule stored_match_ok)
    have a: "acceptAction sock mId act u1 u2 srv m0 player = (srv', sent, Some m)"
      using e p by simp
    have cd: "act = ''special'' \<Longrightarrow>
              lookupPlayer (battleState m0) (playerId player) = Some c \<and> specialCooldown c \<le> 0"
      using c by simp
    from acceptAction_result [OF ok cd a] f
    obtain m1 where "srv' = srv\<lparr>activeMatches :=
                             AList.delete mId (AList.update mId m1 (activeMatches srv))\<rparr>"
      by (auto simp: match_ok_def)
    then show ?thesis
      by (simp add: delete_notin_dom)
  qed (simp_all add: p)
qed

text \<open>
  C3, amended. In every state a match object goes through, a finished status implies that
  both pending actions are still set (the actions of the final turn are not cleared) and
  that no reachable state of the server stores the object in \<^verbatim>\<open>activeMatches\<close>; the
  submission that finished the match has deleted its id from the map.
\<close>

theorem finished_session_is_dropped:
  "(reachable_session m \<and> status (battleState m) = Finished \<longrightarrow>
      action (p1 (battleState m)) \<noteq> None \<and> action (p2 (battleState m)) \<noteq> None
      \<and> (\<forall>srv. reachable srv \<longrightarrow> m \<notin> snd ` set (activeMatches srv)))
   \<and> (reachable srv \<and> pvp_submit_action sock mId act u1 u2 srv = (srv', sent, Some m')
        \<and> status (battleState m') = Finished \<longrightarrow>
      mId \<notin> fst ` set (activeMatches srv'))"
proof (intro conjI impI allI; (elim conjE)?)
  assume rs: "reachable_session m" and f: "status (battleState m) = Finished"
  from reachable_session_inv [OF rs] f
  show "action (p1 (battleState m)) \<noteq> None" "action (p2 (battleState m)) \<noteq> None"
    by (auto simp: match_ok_def)
  fix srv0
  assume "reachable srv0"
  then show "m \<notin> snd ` set (activeMatches srv0)"
    using stored_waiting [of srv0 _ m] f by auto
next
  assume "reachable srv" "pvp_submit_action sock mId act u1 u2 srv = (srv', sent, Some m')"
    "status (battleState m') = Finished"
  then show "mId \<notin> fst ` set (activeMatches srv')"
    by (rule finishing_submission_deletes)
qed

theorem finished_session_is_dropped_witness:
  "case pvp_submit_action ''sb'' ''m1'' ''special'' 0 0 beforeDoubleKO of
     (srv', sent, Some m) \<Rightarrow>
       reachable beforeDoubleKO \<and> reachable_session m \<and> status (battleState m) = Finished
       \<and> action (p1 (battleState m)) \<noteq> None \<and> action (p2 (battleState m)) \<noteq> None
       \<and> m \<notin> snd ` set (activeMatches beforeDoubleKO)
       \<and> ''m1'' \<notin> fst ` set (activeMatches srv')
   | _ \<Rightarrow> False"
proof -
  from final_session_reached obtain srv' sent m
    where p: "pvp_submit_action ''sb'' ''m1'' ''special'' 0 0 beforeDoubleKO = (srv', sent, Some m)"
      and rs: "reachable_session m" and f: "status (battleState m) = Finished"
    by blast
  note r = reachable_beforeDoubleKO
  have a: "action (p1 (battleState m)) \<noteq> None \<and> action (p2 (battleState m)) \<noteq> None
      \<and> (\<forall>srv. reachable srv \<longrightarrow> m \<notin> snd ` set (activeMatches srv))"
    using finished_session_is_dropped [THEN conjunct1, rule_format, of m] rs f by blast
  have b: "''m1'' \<notin> fst ` set (activeMatches srv')"
    using finished_session_is_dropped [THEN conjunct2, rule_format, of beforeDoubleKO] r p f
    by blast
  have c: "m \<notin> snd ` set (activeMatches beforeDoubleKO)"
    using a r by blast
  show ?thesis
    using p rs f a b c r by simp
qed

text \<open>The scenario of an ordinary win is a valid run, and \<open>lastTurnMatch\<close> is its last turn.\<close>

lemma before_last_turn:
  "valid_run init (pairing @ fourTurns @ [PvpSubmitAction ''sa'' ''m1'' ''attack'' 0 0])
   \<and> map_option (\<lambda>m. m\<lparr>battleState := (setAction (battleState m) ''B'' ''attack'')\<lparr>status := Resolving\<rparr>\<rparr>)
        (map_of (activeMatches beforeLastTurn) ''m1'') = Some lastTurnMatch"
  by code_simp

text \<open>
  C4, as stated, fails: in the last turn of the scenario A wins, the match is deleted and
  both battle-end notices are sent, and that is all the handler does. Nothing is forwarded
  to the player-profile store: every effect is an emit to one of the two sockets.
\<close>

theorem battle_end_reaches_no_profile_store:
  "valid_run init (pairing @ fourTurns @ [PvpSubmitAction ''sa'' ''m1'' ''attack'' 0 0])
   \<and> (case step beforeLastTurn (PvpSubmitAction ''sb'' ''m1'' ''attack'' 0 0) of
        (srv', sent) \<Rightarrow>
          activeMatches srv' = []
          \<and> sent =
              [Emit ''sa'' OpponentReady,
               Emit ''sa'' (TurnResult
                 \<lparr>tr_turn = 5,
                  tr_actions = [(''A'', Some ''attack''), (''B'', Some ''attack'')],
                  tr_damage = [(''A'', 15), (''B'', 15)],
                  tr_hp = [(''A'', 10), (''B'', 0)],
                  tr_specialCooldown = [(''A'', 0), (''B'', 0)]\<rparr> ''A'' ''B''),
               Emit ''sb'' (TurnResult
                 \<lparr>tr_turn = 5,
                  tr_actions = [(''A'', Some ''attack''), (''B'', Some ''attack'')],
                  tr_damage = [(''A'', 15), (''B'', 15)],
                  tr_hp = [(''A'', 10), (''B'', 0)],
                  tr_specialCooldown = [(''A'', 0), (''B'', 0)]\<rparr> ''B'' ''A''),
               Emit ''sa'' (BattleEnd ''A'' True 20),
               Emit ''sb'' (BattleEnd ''A'' False (- 10))]
          \<and> profileCalls sent = [])"
  by code_simp

lemma checkWinner_cases:
  "checkWinner h1 h2 a b = Some w \<Longrightarrow> w = a \<or> w = b"
  by (auto simp: checkWinner_def split: if_splits)

lemma winnerOf_cases:
  "winnerOf b u1 u2 = Some w \<Longrightarrow> w = c_playerId (p1 b) \<or> w = c_playerId (p2 b)"
  unfolding winnerOf_def resolveBattle_def Let_def
  by (simp add: checkWinner_cases)

text \<open>
  C4, amended. Whenever \<^verbatim>\<open>resolveTurn\<close> finds a winner (with a non-empty id, so that
  \<^verbatim>\<open>if (winner)\<close> passes) in a match as \<^verbatim>\<open>tryMatchPlayers\<close> builds it, the status
  becomes finished; after the two turn results, both participants are sent a battle-end
  notice, with \<open>+20\<close> for the one who is the winner and \<open>-10\<close> for the other, whatever
  the HP, the trophies and the turn number are; exactly one of the two is the winner; the
  match is deleted from \<^verbatim>\<open>activeMatches\<close>; and no call of the player-profile store is
  made.
\<close>

theorem winner_ends_match:
  assumes wf: "match_wf m"
    and w: "winnerOf (battleState m) u1 u2 = Some w"
    and t: "w \<noteq> []"
  shows "case resolveTurn mId m srv u1 u2 of
           (m', srv', sent) \<Rightarrow>
             status (battleState m') = Finished
             \<and> sent =
                 map (emitTurnResult (turnResultOf (battleState m) u1 u2)
                        (c_playerId (p1 (battleState m))) (c_playerId (p2 (battleState m))))
                   (players m)
                 @ map (\<lambda>p. Emit (socketId p)
                              (BattleEnd w (playerId p = w) (if playerId p = w then 20 else - 10)))
                     (players m)
             \<and> (case players m of
                  [e1, e2] \<Rightarrow> (playerId e1 = w) \<noteq> (playerId e2 = w)
                | _ \<Rightarrow> False)
             \<and> profileCalls sent = []
             \<and> activeMatches srv' = AList.delete mId (activeMatches srv)
             \<and> mId \<notin> fst ` set (activeMatches srv')"
proof -
  obtain q1 q2 tr where rb: "resolveBattle (battleState m) u1 u2 = (q1, q2, tr, Some w)"
    using w by (cases "resolveBattle (battleState m) u1 u2") (auto simp: winnerOf_def)
  have tr: "turnResultOf (battleState m) u1 u2 = tr"
    by (simp add: turnResultOf_def rb)
  have tw: "truthy (Some w)"
    using t by (simp add: truthy_def)
  obtain e1 e2 where p: "players m = [e1, e2]" "playerId e1 \<noteq> playerId e2"
    "c_playerId (p1 (battleState m)) = playerId e1" "c_playerId (p2 (battleState m)) = playerId e2"
    using wf by (auto simp: match_wf_def split: list.splits)
  have one: "(playerId e1 = w) \<noteq> (playerId e2 = w)"
    using winnerOf_cases [OF w] p by auto
  have be: "emitBattleEnd w = (\<lambda>p. Emit (socketId p)
                              (BattleEnd w (playerId p = w) (if playerId p = w then 20 else - 10)))"
    by (rule ext) (simp add: emitBattleEnd_def Let_def)
  have r: "resolveTurn mId m srv u1 u2 =
      (m\<lparr>battleState := (battleState m)\<lparr>p1 := q1, p2 := q2, status := Finished\<rparr>\<rparr>,
       srv\<lparr>activeMatches := AList.delete mId (activeMatches srv)\<rparr>,
       map (emitTurnResult tr (c_playerId (p1 (battleState m))) (c_playerId (p2 (battleState m))))
         (players m) @ map (emitBattleEnd w) (players m))"
    using tw by (simp add: resolveTurn_def rb Let_def)
  have pc: "profileCalls (map (emitTurnResult tr (c_playerId (p1 (battleState m)))
                (c_playerId (p2 (battleState m)))) (players m) @ map (emitBattleEnd w) (players m)) = []"
    by (simp add: profileCalls_def p emitTurnResult_def emitBattleEnd_def Let_def)
  show ?thesis
    unfolding r using one pc by (simp add: tr be p delete_notin_dom)
qed


theorem winner_ends_match_witness:
  "match_wf lastTurnMatch \<and> winnerOf (battleState lastTurnMatch) 0 0 = Some ''A''
   \<and> (case resolveTurn ''m1'' lastTurnMatch beforeLastTurn 0 0 of
        (m', srv', sent) \<Rightarrow>
          status (battleState m') = Finished \<and> length sent = 4 \<and> profileCalls sent = []
          \<and> ''m1'' \<notin> fst ` set (activeMatches srv'))"
proof -
  have h1: "match_wf lastTurnMatch" by code_simp
  have h2: "winnerOf (battleState lastTurnMatch) 0 0 = Some ''A''" by code_simp
  have h3: "''A'' \<noteq> []" by simp
  have l: "length (players lastTurnMatch) = 2" by (simp add: lastTurnMatch_def)
  show ?thesis
    using h1 h2 l winner_ends_match [OF h1 h2 h3, of "''m1''" beforeLastTurn]
    by (auto split: prod.splits)
qed

section \<open>Submissions\<close>

lemma resolveTurn_actions:
  assumes "resolveTurn mId m srv u1 u2 = (m3, srv2, sent)"
    "action (p1 (battleState m)) \<noteq> None" "action (p2 (battleState m)) \<noteq> None"
  shows "(action (p1 (battleState m3)) = None) = (action (p2 (battleState m3)) = None)"
proof -
  obtain q1 q2 tr w where rb: "resolveBattle (battleState m) u1 u2 = (q1, q2, tr, w)"
    by (cases "resolveBattle (battleState m) u1 u2") auto
  note f = resolveBattle_fields [OF rb]
  show ?thesis
    using assms f by (cases "truthy w") (auto simp: resolveTurn_def rb Let_def)
qed

lemma lookupPlayer_setAction:
  "lookupPlayer b pid = Some c \<Longrightarrow>
   \<exists>c'. lookupPlayer (setAction b pid a) pid = Some c' \<and> action c' = Some a"
  by (auto simp: lookupPlayer_def setAction_def split: if_splits)

lemma map_of_update_same: "map_of (AList.update k v al) k = Some v"
  by (simp add: update_conv')

lemma duplicate_submission:
  assumes p: "pvp_submit_action sock mId act u1 u2 srv = (srv1, sent, Some m1)"
    and one: "(action (p1 (battleState m1)) = None) \<noteq> (action (p2 (battleState m1)) = None)"
  shows "pvp_submit_action sock mId act' u1' u2' srv1 = (srv1, [], None)"
  using pvp_submit_action_cases [of sock mId act u1 u2 srv]
proof (elim disjE exE conjE)
  fix m player c
  assume f: "find (\<lambda>p. socketId p = sock) (players m) = Some player"
    and c: "lookupPlayer (battleState m) (playerId player) = Some c"
    and e: "pvp_submit_action sock mId act u1 u2 srv = acceptAction sock mId act u1 u2 srv m player"
    and st: "status (battleState m) = WaitingActions"
    and v: "act \<in> set [''attack'', ''defend'', ''special'']"
  define m' where "m' = m\<lparr>battleState := setAction (battleState m) (playerId player) act\<rparr>"
  define srv' where "srv' = srv\<lparr>activeMatches := AList.update mId m' (activeMatches srv)\<rparr>"
  define m2 where "m2 = m'\<lparr>battleState := (battleState m')\<lparr>status := Resolving\<rparr>\<rparr>"
  have a: "acceptAction sock mId act u1 u2 srv m player = (srv1, sent, Some m1)"
    using e p by simp
  have ns: "\<not> (action (p1 (battleState m')) \<noteq> None \<and> action (p2 (battleState m')) \<noteq> None)"
  proof
    assume all: "action (p1 (battleState m')) \<noteq> None \<and> action (p2 (battleState m')) \<noteq> None"
    obtain m3 srv2 sent2 where r: "resolveTurn mId m2 srv' u1 u2 = (m3, srv2, sent2)"
      by (cases "resolveTurn mId m2 srv' u1 u2") auto
    have "m1 = m3"
      using a all
      unfolding acceptAction_def Let_def m'_def [symmetric] srv'_def [symmetric] m2_def [symmetric]
      by (auto simp: r)
    moreover have "(action (p1 (battleState m3)) = None) = (action (p2 (battleState m3)) = None)"
      using r by (rule resolveTurn_actions) (simp_all add: m2_def all)
    ultimately show False using one by simp
  qed
  then have s1: "srv1 = srv'" and m1: "m1 = m'"
    using a
    unfolding acceptAction_def Let_def m'_def [symmetric] srv'_def [symmetric] m2_def [symmetric]
    by auto
  obtain c' where c': "lookupPlayer (battleState m') (playerId player) = Some c'" "action c' = Some act"
    using lookupPlayer_setAction [OF c, of act] by (auto simp: m'_def)
  have "act \<noteq> []" using v by auto
  then have t: "truthy (action c')"
    by (simp add: c' truthy_def)
  have "map_of (activeMatches srv1) mId = Some m'"
    by (simp add: s1 srv'_def map_of_update_same)
  moreover have "find (\<lambda>p. socketId p = sock) (players m') = Some player"
    using f by (simp add: m'_def)
  ultimately show ?thesis
    using c' t by (simp add: pvp_submit_action_def)
qed (simp_all add: p)

text \<open>
  C5. The \<^verbatim>\<open>pvp:submit_action\<close> handler returns the registries as they were, and has
  written to no match object, when the match id is unknown, when the match is not waiting
  for actions, when the socket is none of the match's participants, when that combatant
  already has a pending action, when the action is not one of the three, and when the
  action is the special while that combatant's cooldown is positive. It sends nothing in
  all these cases but the last, where (no earlier check having rejected the submission) it
  sends the cooldown error to the submitter. So after an accepted submission that leaves
  exactly one action pending (the opponent has not submitted yet), any further submission
  on the same socket changes nothing and sends nothing.
\<close>

theorem rejected_submission_changes_nothing:
  "(map_of (activeMatches srv) mId = None \<longrightarrow>
      pvp_submit_action sock mId act u1 u2 srv = (srv, [], None))
   \<and> (map_of (activeMatches srv) mId = Some m \<longrightarrow>
        (status (battleState m) \<noteq> WaitingActions \<longrightarrow>
           pvp_submit_action sock mId act u1 u2 srv = (srv, [], None))
        \<and> (find (\<lambda>p. socketId p = sock) (players m) = None \<longrightarrow>
             pvp_submit_action sock mId act u1 u2 srv = (srv, [], None))
        \<and> (find (\<lambda>p. socketId p = sock) (players m) = Some player \<longrightarrow>
             (lookupPlayer (battleState m) (playerId player) = None \<longrightarrow>
                pvp_submit_action sock mId act u1 u2 srv = (srv, [], None))
             \<and> (lookupPlayer (battleState m) (playerId player) = Some c \<longrightarrow>
                  (truthy (action c) \<longrightarrow>
                     pvp_submit_action sock mId act u1 u2 srv = (srv, [], None))
                  \<and> (act \<notin> {''attack'', ''defend'', ''special''} \<longrightarrow>
                       pvp_submit_action sock mId act u1 u2 srv = (srv, [], None))
                  \<and> (act = ''special'' \<and> 0 < specialCooldown c \<longrightarrow>
                       pvp_submit_action sock mId act u1 u2 srv =
                         (srv,
                          if status (battleState m) = WaitingActions \<and> \<not> truthy (action c)
                          then [Emit sock (ActionError ''Special is on cooldown!'')] else [],
                          None)))))
   \<and> (pvp_submit_action sock mId act u1 u2 srv = (srv1, sent, Some m1)
        \<and> (action (p1 (battleState m1)) = None) \<noteq> (action (p2 (battleState m1)) = None) \<longrightarrow>
      pvp_submit_action sock mId act' u1' u2' srv1 = (srv1, [], None))"
proof (intro conjI)
  show "pvp_submit_action sock mId act u1 u2 srv = (srv1, sent, Some m1)
        \<and> (action (p1 (battleState m1)) = None) \<noteq> (action (p2 (battleState m1)) = None) \<longrightarrow>
      pvp_submit_action sock mId act' u1' u2' srv1 = (srv1, [], None)"
    using duplicate_submission by blast
qed (simp_all add: pvp_submit_action_def)

lemma after_turn1_match:
  "map_option (\<lambda>m. (status (battleState m),
                     find (\<lambda>p. socketId p = ''sa'') (players m),
                     find (\<lambda>p. socketId p = ''sx'') (players m),
                     map_option (\<lambda>c. (action c, specialCooldown c))
                       (lookupPlayer (battleState m) (playerId (newEntry ''sa'' alice)))))
     (map_of (activeMatches afterTurn1) ''m1'')
   = Some (WaitingActions, Some (newEntry ''sa'' alice), None, Some (None, 2))
   \<and> map_of (activeMatches afterTurn1) ''zz'' = None"
  by code_simp

lemma before_last_turn_match:
  "map_option (\<lambda>m. (find (\<lambda>p. socketId p = ''sa'') (players m),
                     map_option action (lookupPlayer (battleState m) (playerId (newEntry ''sa'' alice)))))
     (map_of (activeMatches beforeLastTurn) ''m1'')
   = Some (Some (newEntry ''sa'' alice), Some (Some ''attack''))"
  by code_simp

lemma first_submission:
  "(case pvp_submit_action ''sa'' ''m1'' ''attack'' 0 0 afterTurn4 of
      (srv1, sent, w) \<Rightarrow> (srv1 = beforeLastTurn, map_option summary w))
   = (True, Some ((25, 0, Some ''attack''), (15, 0, None)))"
  by code_simp


theorem rejected_submission_changes_nothing_witness:
  "pvp_submit_action ''sa'' ''zz'' ''attack'' 0 0 afterTurn1 = (afterTurn1, [], None)
   \<and> pvp_submit_action ''sa'' ''m1'' ''attack'' 0 0 resolvingServer = (resolvingServer, [], None)
   \<and> pvp_submit_action ''sx'' ''m1'' ''attack'' 0 0 afterTurn1 = (afterTurn1, [], None)
   \<and> pvp_submit_action ''sa'' ''m1'' ''heal'' 0 0 afterTurn1 = (afterTurn1, [], None)
   \<and> pvp_submit_action ''sa'' ''m1'' ''special'' 0 0 afterTurn1
       = (afterTurn1, [Emit ''sa'' (ActionError ''Special is on cooldown!'')], None)
   \<and> pvp_submit_action ''sa'' ''m1'' ''special'' 0 0 beforeLastTurn = (beforeLastTurn, [], None)
   \<and> pvp_submit_action ''sa'' ''m1'' ''defend'' 0 0 beforeLastTurn = (beforeLastTurn, [], None)"
proof -
  note T = rejected_submission_changes_nothing
  \<comment> \<open>the match after the first turn: A's cooldown is 2, nothing is pending\<close>
  obtain m c where m: "map_of (activeMatches afterTurn1) ''m1'' = Some m"
    and st: "status (battleState m) = WaitingActions"
    and fa: "find (\<lambda>p. socketId p = ''sa'') (players m) = Some (newEntry ''sa'' alice)"
    and fx: "find (\<lambda>p. socketId p = ''sx'') (players m) = None"
    and c: "lookupPlayer (battleState m) (playerId (newEntry ''sa'' alice)) = Some c"
      "action c = None" "specialCooldown c = 2"
    using after_turn1_match [THEN conjunct1] by auto
  have zz: "map_of (activeMatches afterTurn1) ''zz'' = None"
    using after_turn1_match by simp
  have 1: "pvp_submit_action ''sa'' ''zz'' ''attack'' 0 0 afterTurn1 = (afterTurn1, [], None)"
    using T [of afterTurn1 "''zz''"] zz by blast
  \<comment> \<open>a match that is not waiting for actions\<close>
  have rm: "map_of (activeMatches resolvingServer) ''m1'' = Some lastTurnMatch"
    by (simp add: resolvingServer_def)
  have rs: "status (battleState lastTurnMatch) \<noteq> WaitingActions"
    by (simp add: lastTurnMatch_def)
  have 2: "pvp_submit_action ''sa'' ''m1'' ''attack'' 0 0 resolvingServer = (resolvingServer, [], None)"
    using T [of resolvingServer "''m1''" _ _ _ _ lastTurnMatch] rm rs by blast
  \<comment> \<open>a socket that is not in the match\<close>
  have 3: "pvp_submit_action ''sx'' ''m1'' ''attack'' 0 0 afterTurn1 = (afterTurn1, [], None)"
    using T [of afterTurn1 "''m1''" "''sx''" _ _ _ m] m fx by blast
  \<comment> \<open>an unknown action\<close>
  have h: "''heal'' \<notin> {''attack'', ''defend'', ''special''}" by simp
  have 4: "pvp_submit_action ''sa'' ''m1'' ''heal'' 0 0 afterTurn1 = (afterTurn1, [], None)"
    using T [of afterTurn1 "''m1''" "''sa''" "''heal''" _ _ m "newEntry ''sa'' alice" c] m fa c(1) h
    by blast
  \<comment> \<open>the special on cooldown\<close>
  have nt: "\<not> truthy (action c)" "0 < specialCooldown c"
    using c by (simp_all add: truthy_def)
  have 5: "pvp_submit_action ''sa'' ''m1'' ''special'' 0 0 afterTurn1
       = (afterTurn1, [Emit ''sa'' (ActionError ''Special is on cooldown!'')], None)"
    using T [of afterTurn1 "''m1''" "''sa''" "''special''" 0 0 m "newEntry ''sa'' alice" c]
      m fa c(1) st nt by simp
  \<comment> \<open>a second submission while the first is pending\<close>
  obtain m' c' where m': "map_of (activeMatches beforeLastTurn) ''m1'' = Some m'"
    and fa': "find (\<lambda>p. socketId p = ''sa'') (players m') = Some (newEntry ''sa'' alice)"
    and c': "lookupPlayer (battleState m') (playerId (newEntry ''sa'' alice)) = Some c'"
      "action c' = Some ''attack''"
    using before_last_turn_match by auto
  have t': "truthy (action c')"
    using c' by (simp add: truthy_def)
  have 6: "pvp_submit_action ''sa'' ''m1'' ''special'' 0 0 beforeLastTurn = (beforeLastTurn, [], None)"
    using T [of beforeLastTurn "''m1''" "''sa''" "''special''" 0 0 m' "newEntry ''sa'' alice" c']
      m' fa' c'(1) t' by blast
  \<comment> \<open>the same, from the accepted first submission\<close>
  obtain srv1 sent w where p: "pvp_submit_action ''sa'' ''m1'' ''attack'' 0 0 afterTurn4 = (srv1, sent, w)"
    by (cases "pvp_submit_action ''sa'' ''m1'' ''attack'' 0 0 afterTurn4") auto
  from first_submission obtain m1 where m1: "srv1 = beforeLastTurn" "w = Some m1"
    "summary m1 = ((25, 0, Some ''attack''), (15, 0, None))"
    by (auto simp: p)
  have one: "(action (p1 (battleState m1)) = None) \<noteq> (action (p2 (battleState m1)) = None)"
    using m1(3) by (simp add: summary_def)
  have 7: "pvp_submit_action ''sa'' ''m1'' ''defend'' 0 0 beforeLastTurn = (beforeLastTurn, [], None)"
    using T [of afterTurn4 "''m1''" "''sa''" "''attack''" 0 0 _ _ _ beforeLastTurn sent m1 "''defend''" 0 0]
      p m1(1,2) one by blast
  show ?thesis
    using 1 2 3 4 5 6 7 by simp
qed

section \<open>The matchmaking queue\<close>


lemma reachable_queue_short: "reachable srv \<Longrightarrow> length (waitingPlayers srv) \<le> 1"
  using reachable_inv by (simp add: server_inv_def)



lemma queuedA_state:
  "valid_run init (take 1 pairing) \<and> waitingPlayers queuedA = [newEntry ''sa'' alice]
   \<and> activeMatches queuedA = []"
  by code_simp

lemma reachable_queuedA: "reachable queuedA"
  unfolding queuedA_def
  using reachable_init queuedA_state [THEN conjunct1] by (rule reachable_run)


lemma tryMatchPlayers_short:
  "length (waitingPlayers srv) < 2 \<Longrightarrow> tryMatchPlayers srv uuid now = (srv, [])"
  by (auto simp: tryMatchPlayers_def split: list.splits)

lemma pvp_queue_leaves_short:
  assumes "reachable srv"
  shows "length (waitingPlayers (fst (pvp_queue sock pd uuid now srv))) < 2"
proof -
  have "server_inv (fst (pvp_queue sock pd uuid now srv))"
    using reachable_inv [OF assms] by (rule pvp_queue_inv)
  then show ?thesis by (simp add: server_inv_def)
qed

lemma enqueue_at_most_two:
  assumes "reachable srv"
  shows "length (enqueue sock pd (waitingPlayers srv)) \<le> 2"
  using enqueue_short [OF reachable_queue_short [OF assms], of sock pd] by auto

text \<open>
  C2. \<^verbatim>\<open>tryMatchPlayers\<close> has no loop: called with at least two entries it removes the two
  at the front, stores their match and notifies both; called with fewer it does nothing.
  It is called after every push, so in a reachable state the queue it sees has at most two
  entries, and after the call of a \<^verbatim>\<open>pvp:queue\<close> handler fewer than two remain. Four
  joins in the order A, B, C, D pair A with B and then C with D.
\<close>

theorem pairing_is_fifo:
  "(waitingPlayers srv = e1 # e2 # rest \<longrightarrow>
      (case tryMatchPlayers srv uuid now of
         (srv', sent) \<Rightarrow>
           waitingPlayers srv' = rest
           \<and> map_of (activeMatches srv') uuid =
               Some \<lparr>matchId = uuid, players = [e1, e2],
                     battleState = createBattleState e1 e2, startedAt = now\<rparr>
           \<and> sent =
               [Emit (socketId e1)
                  (MatchFound uuid (playerId e1) (playerId e2, username e2, trophies e2) 100),
                Emit (socketId e2)
                  (MatchFound uuid (playerId e2) (playerId e1, username e1, trophies e1) 100)]))
   \<and> (length (waitingPlayers srv) < 2 \<longrightarrow> tryMatchPlayers srv uuid now = (srv, []))
   \<and> (reachable srv \<longrightarrow>
        length (enqueue sock pd (waitingPlayers srv)) \<le> 2
        \<and> length (waitingPlayers (fst (pvp_queue sock pd uuid now srv))) < 2)
   \<and> (pd_playerId a \<noteq> pd_playerId b \<and> pd_playerId c \<noteq> pd_playerId d \<and> uB \<noteq> uD \<longrightarrow>
        (case run init [PvpQueue sA a uA nA, PvpQueue sB b uB nB,
                        PvpQueue sC c uC nC, PvpQueue sD d uD nD] of
           (srv', sent) \<Rightarrow>
             waitingPlayers srv' = []
             \<and> map (\<lambda>(k, m). (k, players m)) (activeMatches srv') =
                 [(uB, [newEntry sA a, newEntry sB b]), (uD, [newEntry sC c, newEntry sD d])]))"
proof (intro conjI impI)
  assume "waitingPlayers srv = e1 # e2 # rest"
  then show "case tryMatchPlayers srv uuid now of
         (srv', sent) \<Rightarrow>
           waitingPlayers srv' = rest
           \<and> map_of (activeMatches srv') uuid =
               Some \<lparr>matchId = uuid, players = [e1, e2],
                     battleState = createBattleState e1 e2, startedAt = now\<rparr>
           \<and> sent =
               [Emit (socketId e1)
                  (MatchFound uuid (playerId e1) (playerId e2, username e2, trophies e2) 100),
                Emit (socketId e2)
                  (MatchFound uuid (playerId e2) (playerId e1, username e1, trophies e1) 100)]"
    by (simp add: tryMatchPlayers_def Let_def update_conv')
next
  assume "length (waitingPlayers srv) < 2"
  then show "tryMatchPlayers srv uuid now = (srv, [])"
    by (rule tryMatchPlayers_short)
next
  assume r: "reachable srv"
  show "length (enqueue sock pd (waitingPlayers srv)) \<le> 2"
    using r by (rule enqueue_at_most_two)
  show "length (waitingPlayers (fst (pvp_queue sock pd uuid now srv))) < 2"
    using r by (rule pvp_queue_leaves_short)
next
  assume "pd_playerId a \<noteq> pd_playerId b \<and> pd_playerId c \<noteq> pd_playerId d \<and> uB \<noteq> uD"
  then show "case run init [PvpQueue sA a uA nA, PvpQueue sB b uB nB,
                        PvpQueue sC c uC nC, PvpQueue sD d uD nD] of
           (srv', sent) \<Rightarrow>
             waitingPlayers srv' = []
             \<and> map (\<lambda>(k, m). (k, players m)) (activeMatches srv') =
                 [(uB, [newEntry sA a, newEntry sB b]), (uD, [newEntry sC c, newEntry sD d])]"
    by (simp add: init_def pvp_queue_def enqueue_def tryMatchPlayers_def Let_def newEntry_def)
qed

theorem pairing_is_fifo_witness:
  "reachable queuedA
   \<and> tryMatchPlayers queuedA ''m9'' 2 = (queuedA, [])
   \<and> length (waitingPlayers (fst (pvp_queue ''sb'' bob ''m1'' 1 queuedA))) < 2
   \<and> (case tryMatchPlayers (queuedA\<lparr>waitingPlayers := enqueue ''sb'' bob (waitingPlayers queuedA)\<rparr>) ''m1'' 1 of
        (srv', sent) \<Rightarrow>
          waitingPlayers srv' = []
          \<and> map_option players (map_of (activeMatches srv') ''m1'')
              = Some [newEntry ''sa'' alice, newEntry ''sb'' bob])
   \<and> (case run init [PvpQueue ''sa'' alice ''m0'' 0, PvpQueue ''sb'' bob ''m1'' 1,
                      PvpQueue ''sc'' carol ''m2'' 2, PvpQueue ''sd'' dave ''m3'' 3] of
        (srv', sent) \<Rightarrow>
          waitingPlayers srv' = []
          \<and> map (\<lambda>(k, m). (k, players m)) (activeMatches srv') =
              [(''m1'', [newEntry ''sa'' alice, newEntry ''sb'' bob]),
               (''m3'', [newEntry ''sc'' carol, newEntry ''sd'' dave])])"
proof -
  note T = pairing_is_fifo
  note r = reachable_queuedA
  have q: "waitingPlayers queuedA = [newEntry ''sa'' alice]"
    using queuedA_state by simp
  have l: "length (waitingPlayers queuedA) < 2"
    by (simp add: q)
  have 2: "tryMatchPlayers queuedA ''m9'' 2 = (queuedA, [])"
    using T [where uuid = "''m9''" and now = 2, THEN conjunct2, THEN conjunct1, rule_format, OF l] .
  have 3: "length (waitingPlayers (fst (pvp_queue ''sb'' bob ''m1'' 1 queuedA))) < 2"
    using T [where sock = "''sb''" and pd = bob and uuid = "''m1''" and now = 1,
        THEN conjunct2, THEN conjunct2, THEN conjunct1, rule_format, OF r] by simp
  have e: "waitingPlayers (queuedA\<lparr>waitingPlayers := enqueue ''sb'' bob (waitingPlayers queuedA)\<rparr>)
           = newEntry ''sa'' alice # newEntry ''sb'' bob # []"
    by (simp add: q enqueue_def newEntry_def alice_def bob_def)
  have 1: "case tryMatchPlayers (queuedA\<lparr>waitingPlayers := enqueue ''sb'' bob (waitingPlayers queuedA)\<rparr>) ''m1'' 1 of
        (srv', sent) \<Rightarrow>
          waitingPlayers srv' = []
          \<and> map_option players (map_of (activeMatches srv') ''m1'')
              = Some [newEntry ''sa'' alice, newEntry ''sb'' bob]"
    using T [where uuid = "''m1''" and now = 1, THEN conjunct1, rule_format, OF e]
    by (auto split: prod.splits)
  have i: "pd_playerId alice \<noteq> pd_playerId bob \<and> pd_playerId carol \<noteq> pd_playerId dave
           \<and> ''m1'' \<noteq> ''m3''"
    by (simp add: alice_def bob_def carol_def dave_def)
  have 4: "case run init [PvpQueue ''sa'' alice ''m0'' 0, PvpQueue ''sb'' bob ''m1'' 1,
                      PvpQueue ''sc'' carol ''m2'' 2, PvpQueue ''sd'' dave ''m3'' 3] of
        (srv', sent) \<Rightarrow>
          waitingPlayers srv' = []
          \<and> map (\<lambda>(k, m). (k, players m)) (activeMatches srv') =
              [(''m1'', [newEntry ''sa'' alice, newEntry ''sb'' bob]),
               (''m3'', [newEntry ''sc'' carol, newEntry ''sd'' dave])]"
    using T [THEN conjunct2, THEN conjunct2, THEN conjunct2, rule_format, OF i] .
  show ?thesis
    using r 1 2 3 4 by simp
qed

section \<open>Disconnection\<close>

lemma forEachMatch_sent:
  "snd (forEachMatch sock ms am) =
     concat (map (\<lambda>(k, m). if list_ex (\<lambda>p. socketId p = sock) (players m)
                             then notifyOpponent sock m OpponentDisconnect else []) ms)"
  by (induction ms arbitrary: am) (auto simp: split_beta)

lemma matchesOf_Cons:
  "matchesOf sock ((k, m) # ms) =
     (if list_ex (\<lambda>p. socketId p = sock) (players m) then k # matchesOf sock ms
      else matchesOf sock ms)"
  by (simp add: matchesOf_def)

lemma forEachMatch_map:
  "fst (forEachMatch sock ms am) = filter (\<lambda>(k, m). k \<notin> set (matchesOf sock ms)) am"
proof (induction ms arbitrary: am)
  case Nil
  then show ?case by (simp add: matchesOf_def)
next
  case (Cons x ms)
  obtain k m where x: "x = (k, m)" by (cases x)
  show ?case
  proof (cases "list_ex (\<lambda>p. socketId p = sock) (players m)")
    case True
    have "fst (forEachMatch sock (x # ms) am) = fst (forEachMatch sock ms (AList.delete k am))"
      using True by (simp add: x split_beta)
    also have "\<dots> = filter (\<lambda>(k, m). k \<notin> set (matchesOf sock ms)) (AList.delete k am)"
      by (rule Cons.IH)
    also have "\<dots> = filter (\<lambda>(k, m). k \<notin> set (matchesOf sock (x # ms))) am"
      using True by (auto simp: x matchesOf_Cons AList.delete_eq intro: filter_cong)
    finally show ?thesis .
  next
    case False
    then show ?thesis
      using Cons.IH [of am] by (simp add: x matchesOf_Cons)
  qed
qed

lemma notifyOpponent_form:
  "e \<in> set (notifyOpponent sock m msg) \<Longrightarrow> \<exists>s. e = Emit s msg"
  by (auto simp: notifyOpponent_def split: option.splits)

lemma notifyOpponent_remaining:
  assumes "players m = [e1, e2]" "list_ex (\<lambda>p. socketId p = sock) (players m)"
    "p \<in> set (players m)" "socketId p \<noteq> sock"
  shows "notifyOpponent sock m msg = [Emit (socketId p) msg]"
  using assms by (auto simp: notifyOpponent_def)


lemma spliceFirst_short:
  "length q \<le> 1 \<Longrightarrow> \<not> list_ex P (spliceFirst P q)"
  using short_queue_cases [of q] by (auto split: if_splits)

lemma reachable_two_players:
  assumes "reachable srv" "(k, m) \<in> set (activeMatches srv)"
  shows "length (players m) = 2"
proof -
  have "match_wf m"
    using reachable_session_inv [OF session_stored [OF assms]] by simp
  then show ?thesis
    by (auto simp: match_wf_def split: list.splits)
qed

text \<open>
  C9. The \<^verbatim>\<open>disconnect\<close> handler removes the socket's waiting entry (the first one; in
  a reachable state none is left) and deletes every match the socket takes part in. In
  each of these matches the other participant, the one on another socket, is sent
  \<^verbatim>\<open>pvp:opponent_disconnect\<close>. These notices are all the handler sends: no battle end, no
  trophy change for either side. When the socket is in no match, the matches stay as they
  are and nothing is sent.
\<close>

theorem disconnect_aborts_without_score:
  "case disconnect sock srv of
     (srv', sent) \<Rightarrow>
       waitingPlayers srv' = spliceFirst (\<lambda>p. socketId p = sock) (waitingPlayers srv)
       \<and> activeMatches srv' =
           filter (\<lambda>(k, m). k \<notin> set (matchesOf sock (activeMatches srv))) (activeMatches srv)
       \<and> (\<forall>(k, m) \<in> set (activeMatches srv).
             list_ex (\<lambda>p. socketId p = sock) (players m) \<longrightarrow>
               k \<notin> fst ` set (activeMatches srv')
               \<and> (\<forall>p \<in> set (players m).
                     socketId p \<noteq> sock \<and> length (players m) = 2 \<longrightarrow>
                       Emit (socketId p) OpponentDisconnect \<in> set sent))
       \<and> (\<forall>e \<in> set sent. \<exists>s. e = Emit s OpponentDisconnect)
       \<and> (matchesOf sock (activeMatches srv) = [] \<longrightarrow>
             activeMatches srv' = activeMatches srv \<and> sent = [])
       \<and> (reachable srv \<longrightarrow>
             \<not> list_ex (\<lambda>p. socketId p = sock) (waitingPlayers srv')
             \<and> (\<forall>(k, m) \<in> set (activeMatches srv). length (players m) = 2))"
proof -
  define am' where "am' = fst (forEachMatch sock (activeMatches srv) (activeMatches srv))"
  define sent where "sent = snd (forEachMatch sock (activeMatches srv) (activeMatches srv))"
  have d: "disconnect sock srv =
      (\<lparr>waitingPlayers = spliceFirst (\<lambda>p. socketId p = sock) (waitingPlayers srv),
        activeMatches = am'\<rparr>, sent)"
    by (simp add: disconnect_def am'_def sent_def split_beta)
  have am: "am' = filter (\<lambda>(k, m). k \<notin> set (matchesOf sock (activeMatches srv))) (activeMatches srv)"
    unfolding am'_def by (rule forEachMatch_map)
  have se: "sent = concat (map (\<lambda>(k, m). if list_ex (\<lambda>p. socketId p = sock) (players m)
                             then notifyOpponent sock m OpponentDisconnect else []) (activeMatches srv))"
    unfolding sent_def by (rule forEachMatch_sent)
  have gone: "k \<notin> fst ` set am'"
    if "(k, m) \<in> set (activeMatches srv)" "list_ex (\<lambda>p. socketId p = sock) (players m)" for k m
  proof -
    have "k \<in> set (matchesOf sock (activeMatches srv))"
      using that by (force simp: matchesOf_def)
    then show ?thesis by (auto simp: am)
  qed
  have told: "Emit (socketId p) OpponentDisconnect \<in> set sent"
    if km: "(k, m) \<in> set (activeMatches srv)" "list_ex (\<lambda>p. socketId p = sock) (players m)"
      and p: "p \<in> set (players m)" "socketId p \<noteq> sock" "length (players m) = 2" for k m p
  proof -
    obtain e1 e2 where "players m = [e1, e2]"
      using p(3) by (auto simp: length_Suc_conv numeral_2_eq_2)
    then have "notifyOpponent sock m OpponentDisconnect = [Emit (socketId p) OpponentDisconnect]"
      using km(2) p(1,2) by (rule notifyOpponent_remaining)
    then show ?thesis
      using km by (force simp: se)
  qed
  have only: "\<exists>s. e = Emit s OpponentDisconnect" if "e \<in> set sent" for e
    using that notifyOpponent_form [of e sock _ OpponentDisconnect]
    by (auto simp: se split: if_splits)
  have none: "am' = activeMatches srv \<and> sent = []" if "matchesOf sock (activeMatches srv) = []"
  proof -
    have "\<forall>(k, m) \<in> set (activeMatches srv). \<not> list_ex (\<lambda>p. socketId p = sock) (players m)"
      using that by (auto simp: matchesOf_def filter_empty_conv)
    then have "sent = []"
      by (auto simp: se)
    then show ?thesis
      using that by (simp add: am)
  qed
  have queue: "\<not> list_ex (\<lambda>p. socketId p = sock)
                  (spliceFirst (\<lambda>p. socketId p = sock) (waitingPlayers srv))" if "reachable srv"
    using reachable_queue_short [OF that] by (rule spliceFirst_short)
  have two: "\<forall>(k, m) \<in> set (activeMatches srv). length (players m) = 2" if "reachable srv"
    using reachable_two_players [OF that] by auto
  have c3: "\<forall>(k, m) \<in> set (activeMatches srv).
             list_ex (\<lambda>p. socketId p = sock) (players m) \<longrightarrow>
               k \<notin> fst ` set am'
               \<and> (\<forall>p \<in> set (players m).
                     socketId p \<noteq> sock \<and> length (players m) = 2 \<longrightarrow>
                       Emit (socketId p) OpponentDisconnect \<in> set sent)"
  proof (intro ballI, clarify, intro conjI ballI impI)
    fix k m
    assume km: "(k, m) \<in> set (activeMatches srv)" "list_ex (\<lambda>p. socketId p = sock) (players m)"
    show "k \<notin> fst ` set am'"
      using km by (rule gone)
    fix p
    assume "p \<in> set (players m)" "socketId p \<noteq> sock \<and> length (players m) = 2"
    then show "Emit (socketId p) OpponentDisconnect \<in> set sent"
      using told [OF km] by blast
  qed
  have c4: "\<forall>e \<in> set sent. \<exists>s. e = Emit s OpponentDisconnect"
    using only by blast
  have c5: "matchesOf sock (activeMatches srv) = [] \<longrightarrow> am' = activeMatches srv \<and> sent = []"
    using none by blast
  have c6: "reachable srv \<longrightarrow>
             \<not> list_ex (\<lambda>p. socketId p = sock)
                  (spliceFirst (\<lambda>p. socketId p = sock) (waitingPlayers srv))
             \<and> (\<forall>(k, m) \<in> set (activeMatches srv). length (players m) = 2)"
    using queue two by blast
  show ?thesis
    unfolding d prod.case server.simps
    using am c3 c4 c5 c6 by (intro conjI) (rule refl, assumption+)
qed

lemma after_turn1_players:
  "valid_run init (pairing @ take 2 fourTurns)
   \<and> waitingPlayers afterTurn1 = []
   \<and> map (\<lambda>(k, m). (k, players m)) (activeMatches afterTurn1)
       = [(''m1'', [newEntry ''sa'' alice, newEntry ''sb'' bob])]"
  by code_simp

lemma reachable_afterTurn1: "reachable afterTurn1"
  unfolding afterTurn1_def
  using reachable_init after_turn1_players [THEN conjunct1] by (rule reachable_run)

theorem disconnect_aborts_without_score_witness:
  "reachable afterTurn1 \<and> reachable queuedA
   \<and> (case disconnect ''sa'' afterTurn1 of
        (srv', sent) \<Rightarrow>
          ''m1'' \<notin> fst ` set (activeMatches srv')
          \<and> Emit ''sb'' OpponentDisconnect \<in> set sent
          \<and> \<not> list_ex (\<lambda>p. socketId p = ''sa'') (waitingPlayers srv'))
   \<and> (case disconnect ''sa'' queuedA of
        (srv', sent) \<Rightarrow>
          \<not> list_ex (\<lambda>p. socketId p = ''sa'') (waitingPlayers srv')
          \<and> activeMatches srv' = activeMatches queuedA \<and> sent = [])"
proof -
  note T = disconnect_aborts_without_score
  obtain m where m: "(''m1'', m) \<in> set (activeMatches afterTurn1)"
    and p: "players m = [newEntry ''sa'' alice, newEntry ''sb'' bob]"
    using after_turn1_players by (auto simp: map_eq_Cons_conv)
  have h1: "list_ex (\<lambda>p. socketId p = ''sa'') (players m)"
    by (simp add: p newEntry_def)
  have h2: "newEntry ''sb'' bob \<in> set (players m)"
    "socketId (newEntry ''sb'' bob) \<noteq> ''sa'' \<and> length (players m) = 2"
    by (simp_all add: p newEntry_def)
  have h3: "matchesOf ''sa'' (activeMatches queuedA) = []"
    using queuedA_state by (simp add: matchesOf_def)
  obtain srv1 sent1 where d1: "disconnect ''sa'' afterTurn1 = (srv1, sent1)"
    by (cases "disconnect ''sa'' afterTurn1") auto
  note T1 = T [of "''sa''" afterTurn1, unfolded d1 prod.case]
  note T1m = T1 [THEN conjunct2, THEN conjunct2, THEN conjunct1, THEN bspec, OF m,
      unfolded prod.case, THEN mp, OF h1]
  have a1: "''m1'' \<notin> fst ` set (activeMatches srv1)"
    using T1m by (rule conjunct1)
  have a2: "Emit (socketId (newEntry ''sb'' bob)) OpponentDisconnect \<in> set sent1"
    using T1m [THEN conjunct2, THEN bspec, OF h2(1), THEN mp, OF h2(2)] .
  have a3: "\<not> list_ex (\<lambda>p. socketId p = ''sa'') (waitingPlayers srv1)"
    using T1 [THEN conjunct2, THEN conjunct2, THEN conjunct2, THEN conjunct2, THEN conjunct2,
        THEN mp, OF reachable_afterTurn1] by (rule conjunct1)
  have a: "case disconnect ''sa'' afterTurn1 of
        (srv', sent) \<Rightarrow>
          ''m1'' \<notin> fst ` set (activeMatches srv')
          \<and> Emit ''sb'' OpponentDisconnect \<in> set sent
          \<and> \<not> list_ex (\<lambda>p. socketId p = ''sa'') (waitingPlayers srv')"
    using a1 a2 a3 by (simp add: d1 newEntry_def)
  obtain srv2 sent2 where d2: "disconnect ''sa'' queuedA = (srv2, sent2)"
    by (cases "disconnect ''sa'' queuedA") auto
  note T2 = T [of "''sa''" queuedA, unfolded d2 prod.case]
  have b1: "activeMatches srv2 = activeMatches queuedA \<and> sent2 = []"
    using T2 [THEN conjunct2, THEN conjunct2, THEN conjunct2, THEN conjunct2, THEN conjunct1,
        THEN mp, OF h3] .
  have b2: "\<not> list_ex (\<lambda>p. socketId p = ''sa'') (waitingPlayers srv2)"
    using T2 [THEN conjunct2, THEN conjunct2, THEN conjunct2, THEN conjunct2, THEN conjunct2,
        THEN mp, OF reachable_queuedA] by (rule conjunct1)
  have b: "case disconnect ''sa'' queuedA of
        (srv', sent) \<Rightarrow>
          \<not> list_ex (\<lambda>p. socketId p = ''sa'') (waitingPlayers srv')
          \<and> activeMatches srv' = activeMatches queuedA \<and> sent = []"
    using b1 b2 by (simp add: d2)
  show ?thesis
    using a b reachable_afterTurn1 reachable_queuedA by simp
qed

section \<open>Cooldowns\<close>

lemma cooldown_next:
  "reduceCooldown a (cooldownAfterAction a cd) =
     (if a = Some ''special'' then (if cd = 0 then 2 else cd)
      else if cd > 0 then cd - 1 else cd)"
  unfolding reduceCooldown_def cooldownAfterAction_def
  by (cases "a = Some ''attack''"; cases "a = Some ''special''"; simp)

text \<open>A resolved turn writes the new cooldowns into the match object, which stays stored unless the match is finished.\<close>

lemma resolveTurn_cooldowns:
  assumes r: "resolveTurn mId m srv u1 u2 = (m', srv', sent)"
  shows "specialCooldown (p1 (battleState m')) =
           reduceCooldown (action (p1 (battleState m)))
             (cooldownAfterAction (action (p1 (battleState m))) (specialCooldown (p1 (battleState m))))
         \<and> specialCooldown (p2 (battleState m')) =
           reduceCooldown (action (p2 (battleState m)))
             (cooldownAfterAction (action (p2 (battleState m))) (specialCooldown (p2 (battleState m))))
         \<and> (status (battleState m') = Finished \<or> map_of (activeMatches srv') mId = Some m')"
proof -
  obtain q1 q2 tr w where rb: "resolveBattle (battleState m) u1 u2 = (q1, q2, tr, w)"
    by (cases "resolveBattle (battleState m) u1 u2") auto
  note f = resolveBattle_fields [OF rb]
  show ?thesis
  proof (cases "truthy w")
    case True
    then have "m' = m\<lparr>battleState := (battleState m)\<lparr>p1 := q1, p2 := q2, status := Finished\<rparr>\<rparr>"
      using r by (auto simp add: resolveTurn_def rb Let_def)
    then show ?thesis using f by simp
  next
    case False
    define mn where "mn = m\<lparr>battleState :=
                        (battleState m)\<lparr>turn := turn (battleState m) + 1,
                               p1 := q1\<lparr>action := None\<rparr>, p2 := q2\<lparr>action := None\<rparr>,
                               status := WaitingActions\<rparr>\<rparr>"
    have e: "m' = mn" "srv' = srv\<lparr>activeMatches := AList.update mId mn (activeMatches srv)\<rparr>"
      using r False by (auto simp add: resolveTurn_def rb Let_def mn_def)
    have "map_of (activeMatches srv') mId = Some m'"
      by (simp add: e map_of_update_same)
    then show ?thesis using f by (simp add: e(1) mn_def)
  qed
qed

lemma submission_cooldowns:
  assumes m: "map_of (activeMatches srv) mId = Some m"
    and f: "find (\<lambda>p. socketId p = sock) (players m) = Some player"
    and p: "pvp_submit_action sock mId act u1 u2 srv = (srv', sent, Some m')"
  shows "if action (p1 (setAction (battleState m) (playerId player) act)) \<noteq> None
            \<and> action (p2 (setAction (battleState m) (playerId player) act)) \<noteq> None
         then specialCooldown (p1 (battleState m')) =
                reduceCooldown (action (p1 (setAction (battleState m) (playerId player) act)))
                  (cooldownAfterAction (action (p1 (setAction (battleState m) (playerId player) act)))
                     (specialCooldown (p1 (battleState m))))
              \<and> specialCooldown (p2 (battleState m')) =
                reduceCooldown (action (p2 (setAction (battleState m) (playerId player) act)))
                  (cooldownAfterAction (action (p2 (setAction (battleState m) (playerId player) act)))
                     (specialCooldown (p2 (battleState m))))
              \<and> (status (battleState m') = Finished \<or> map_of (activeMatches srv') mId = Some m')
         else specialCooldown (p1 (battleState m')) = specialCooldown (p1 (battleState m))
              \<and> specialCooldown (p2 (battleState m')) = specialCooldown (p2 (battleState m))
              \<and> map_of (activeMatches srv') mId = Some m'"
  using pvp_submit_action_cases [of sock mId act u1 u2 srv]
proof (elim disjE exE conjE)
  fix m0 player0 c
  assume "map_of (activeMatches srv) mId = Some m0"
    "find (\<lambda>p. socketId p = sock) (players m0) = Some player0"
    and e: "pvp_submit_action sock mId act u1 u2 srv = acceptAction sock mId act u1 u2 srv m0 player0"
  then have same: "m0 = m" "player0 = player"
    using m f by simp_all
  define b1 where "b1 = setAction (battleState m) (playerId player) act"
  define m1 where "m1 = m\<lparr>battleState := b1\<rparr>"
  define srv1 where "srv1 = srv\<lparr>activeMatches := AList.update mId m1 (activeMatches srv)\<rparr>"
  define m2 where "m2 = m1\<lparr>battleState := (battleState m1)\<lparr>status := Resolving\<rparr>\<rparr>"
  have a: "acceptAction sock mId act u1 u2 srv m player = (srv', sent, Some m')"
    using e p same by simp
  have cd1: "specialCooldown (p1 b1) = specialCooldown (p1 (battleState m))"
    "specialCooldown (p2 b1) = specialCooldown (p2 (battleState m))"
    by (simp_all add: b1_def setAction_keeps)
  show ?thesis
  proof (cases "action (p1 b1) \<noteq> None \<and> action (p2 b1) \<noteq> None")
    case False
    then have "srv' = srv1 \<and> m' = m1"
      using a
      unfolding acceptAction_def Let_def b1_def [symmetric] m1_def [symmetric] srv1_def [symmetric]
      by (auto simp: m1_def)
    then show ?thesis
      using False cd1 unfolding b1_def [symmetric]
      by (auto simp: srv1_def map_of_update_same m1_def)
  next
    case True
    obtain m3 srv2 sent2 where r: "resolveTurn mId m2 srv1 u1 u2 = (m3, srv2, sent2)"
      by (cases "resolveTurn mId m2 srv1 u1 u2") auto
    have "srv' = srv2 \<and> m' = m3"
      using a True
      unfolding acceptAction_def Let_def b1_def [symmetric] m1_def [symmetric] srv1_def [symmetric]
        m2_def [symmetric]
      by (auto simp: r m1_def)
    moreover have "battleState m2 = b1\<lparr>status := Resolving\<rparr>"
      by (simp add: m2_def m1_def)
    ultimately show ?thesis
      using resolveTurn_cooldowns [OF r] True cd1 unfolding b1_def [symmetric]
      by simp
  qed
qed (simp_all add: p)


text \<open>
  C10. In every state a match object goes through, both cooldowns are 0, 1 or 2, and a
  pending special was accepted at cooldown 0. A new battle starts with both at 0. One
  resolved turn takes a cooldown \<open>cd\<close> to 2 when the side used the special at \<open>cd = 0\<close>,
  leaves it alone when the side used the special otherwise (no decay in the turn of a
  special), and else lowers it by 1 while it is positive. \<^verbatim>\<open>resolveTurn\<close> writes these
  values into the match object, which stays stored under its id unless the match is
  finished; the submission that completes a turn does so with the two recorded actions,
  and a submission that does not complete the turn leaves both cooldowns as they were.
\<close>

theorem special_cooldown_range:
  "(reachable_session m \<longrightarrow>
      cooldown_ok (p1 (battleState m)) \<and> cooldown_ok (p2 (battleState m))
      \<and> (status (battleState m) = WaitingActions \<longrightarrow>
           pending_ok (p1 (battleState m)) \<and> pending_ok (p2 (battleState m))))
   \<and> specialCooldown (p1 (createBattleState e1 e2)) = 0
   \<and> specialCooldown (p2 (createBattleState e1 e2)) = 0
   \<and> (let next = (\<lambda>a cd. if a = Some ''special'' then (if cd = 0 then 2 else cd)
                          else if cd > 0 then cd - 1 else cd)
      in case resolveBattle b u1 u2 of
           (q1, q2, tr, w) \<Rightarrow>
             specialCooldown q1 = next (action (p1 b)) (specialCooldown (p1 b))
             \<and> specialCooldown q2 = next (action (p2 b)) (specialCooldown (p2 b)))
   \<and> (let next = (\<lambda>a cd. if a = Some ''special'' then (if cd = 0 then 2 else cd)
                          else if cd > 0 then cd - 1 else cd)
      in case resolveTurn mId mr srv u1 u2 of
           (m', srv', sent) \<Rightarrow>
             specialCooldown (p1 (battleState m')) =
               next (action (p1 (battleState mr))) (specialCooldown (p1 (battleState mr)))
             \<and> specialCooldown (p2 (battleState m')) =
               next (action (p2 (battleState mr))) (specialCooldown (p2 (battleState mr)))
             \<and> (status (battleState m') = Finished \<or> map_of (activeMatches srv') mId = Some m'))
   \<and> (map_of (activeMatches srv) mId = Some ms
        \<and> find (\<lambda>p. socketId p = sock) (players ms) = Some player
        \<and> pvp_submit_action sock mId act u1 u2 srv = (srv'', sent'', Some m'') \<longrightarrow>
        (let next = (\<lambda>a cd. if a = Some ''special'' then (if cd = 0 then 2 else cd)
                            else if cd > 0 then cd - 1 else cd);
             a1 = action (p1 (setAction (battleState ms) (playerId player) act));
             a2 = action (p2 (setAction (battleState ms) (playerId player) act))
         in if a1 \<noteq> None \<and> a2 \<noteq> None
            then specialCooldown (p1 (battleState m'')) = next a1 (specialCooldown (p1 (battleState ms)))
                 \<and> specialCooldown (p2 (battleState m'')) = next a2 (specialCooldown (p2 (battleState ms)))
                 \<and> (status (battleState m'') = Finished
                      \<or> map_of (activeMatches srv'') mId = Some m'')
            else specialCooldown (p1 (battleState m'')) = specialCooldown (p1 (battleState ms))
                 \<and> specialCooldown (p2 (battleState m'')) = specialCooldown (p2 (battleState ms))
                 \<and> map_of (activeMatches srv'') mId = Some m''))"
proof (intro conjI impI)
  assume "reachable_session m"
  note i = reachable_session_inv [OF this]
  show "cooldown_ok (p1 (battleState m))" "cooldown_ok (p2 (battleState m))"
    using i by simp_all
  assume "status (battleState m) = WaitingActions"
  then show "pending_ok (p1 (battleState m))" "pending_ok (p2 (battleState m))"
    using i by (auto simp: match_ok_def)
next
  show "specialCooldown (p1 (createBattleState e1 e2)) = 0"
    "specialCooldown (p2 (createBattleState e1 e2)) = 0"
    by (simp_all add: createBattleState_def toCombatant_def)
next
  obtain q1 q2 tr w where rb: "resolveBattle b u1 u2 = (q1, q2, tr, w)"
    by (cases "resolveBattle b u1 u2") auto
  show "let next = (\<lambda>a cd. if a = Some ''special'' then (if cd = 0 then 2 else cd)
                          else if cd > 0 then cd - 1 else cd)
      in case resolveBattle b u1 u2 of
           (q1, q2, tr, w) \<Rightarrow>
             specialCooldown q1 = next (action (p1 b)) (specialCooldown (p1 b))
             \<and> specialCooldown q2 = next (action (p2 b)) (specialCooldown (p2 b))"
    using resolveBattle_fields [OF rb] by (simp add: rb cooldown_next Let_def)
next
  obtain m' srv' sent where r: "resolveTurn mId mr srv u1 u2 = (m', srv', sent)"
    by (cases "resolveTurn mId mr srv u1 u2") auto
  show "let next = (\<lambda>a cd. if a = Some ''special'' then (if cd = 0 then 2 else cd)
                          else if cd > 0 then cd - 1 else cd)
      in case resolveTurn mId mr srv u1 u2 of
           (m', srv', sent) \<Rightarrow>
             specialCooldown (p1 (battleState m')) =
               next (action (p1 (battleState mr))) (specialCooldown (p1 (battleState mr)))
             \<and> specialCooldown (p2 (battleState m')) =
               next (action (p2 (battleState mr))) (specialCooldown (p2 (battleState mr)))
             \<and> (status (battleState m') = Finished \<or> map_of (activeMatches srv') mId = Some m')"
    unfolding Let_def r prod.case
    using resolveTurn_cooldowns [OF r] by (simp only: cooldown_next)
next
  assume "map_of (activeMatches srv) mId = Some ms
        \<and> find (\<lambda>p. socketId p = sock) (players ms) = Some player
        \<and> pvp_submit_action sock mId act u1 u2 srv = (srv'', sent'', Some m'')"
  then have h: "map_of (activeMatches srv) mId = Some ms"
    "find (\<lambda>p. socketId p = sock) (players ms) = Some player"
    "pvp_submit_action sock mId act u1 u2 srv = (srv'', sent'', Some m'')"
    by simp_all
  show "let next = (\<lambda>a cd. if a = Some ''special'' then (if cd = 0 then 2 else cd)
                            else if cd > 0 then cd - 1 else cd);
             a1 = action (p1 (setAction (battleState ms) (playerId player) act));
             a2 = action (p2 (setAction (battleState ms) (playerId player) act))
         in if a1 \<noteq> None \<and> a2 \<noteq> None
            then specialCooldown (p1 (battleState m'')) = next a1 (specialCooldown (p1 (battleState ms)))
                 \<and> specialCooldown (p2 (battleState m'')) = next a2 (specialCooldown (p2 (battleState ms)))
                 \<and> (status (battleState m'') = Finished
                      \<or> map_of (activeMatches srv'') mId = Some m'')
            else specialCooldown (p1 (battleState m'')) = specialCooldown (p1 (battleState ms))
                 \<and> specialCooldown (p2 (battleState m'')) = specialCooldown (p2 (battleState ms))
                 \<and> map_of (activeMatches srv'') mId = Some m''"
    unfolding Let_def
    using submission_cooldowns [OF h] by (simp only: cooldown_next)
qed


lemma during_turns:
  "valid_run init (pairing @ take 3 fourTurns)
   \<and> map_option (\<lambda>m. (summary m, c_playerId (p1 (battleState m)), c_playerId (p2 (battleState m)),
                       find (\<lambda>p. socketId p = ''sb'') (players m)))
       (map_of (activeMatches duringTurn1) ''m1'')
     = Some (((100, 0, Some ''special''), (100, 0, None)), ''A'', ''B'', Some (newEntry ''sb'' bob))
   \<and> map_option (\<lambda>m. (summary m, c_playerId (p1 (battleState m)), c_playerId (p2 (battleState m)),
                       find (\<lambda>p. socketId p = ''sb'') (players m)))
       (map_of (activeMatches duringTurn2) ''m1'')
     = Some (((85, 2, Some ''attack''), (70, 0, None)), ''A'', ''B'', Some (newEntry ''sb'' bob))"
  by code_simp

lemma turns_resolved:
  "(case pvp_submit_action ''sb'' ''m1'' ''attack'' 0 0 duringTurn1 of
      (srv', sent, w) \<Rightarrow> map_option (\<lambda>m. status (battleState m)) w) = Some WaitingActions
   \<and> (case pvp_submit_action ''sb'' ''m1'' ''attack'' (15 / 16) (1 / 2) duringTurn2 of
      (srv', sent, w) \<Rightarrow> map_option (\<lambda>m. status (battleState m)) w) = Some WaitingActions"
  by code_simp

theorem special_cooldown_range_witness:
  "(case activeMatches beforeDoubleKO of
     [(k, m)] \<Rightarrow>
       reachable_session m \<and> status (battleState m) = WaitingActions
       \<and> action (p1 (battleState m)) = Some ''special''
       \<and> specialCooldown (p1 (battleState m)) = 0 \<and> specialCooldown (p2 (battleState m)) = 0
   | _ \<Rightarrow> False)
   \<and> (case pvp_submit_action ''sb'' ''m1'' ''attack'' 0 0 duringTurn1 of
        (srv', sent, Some m') \<Rightarrow>
          specialCooldown (p1 (battleState m')) = 2 \<and> specialCooldown (p2 (battleState m')) = 0
          \<and> map_of (activeMatches srv') ''m1'' = Some m'
      | _ \<Rightarrow> False)
   \<and> (case pvp_submit_action ''sb'' ''m1'' ''attack'' (15 / 16) (1 / 2) duringTurn2 of
        (srv', sent, Some m') \<Rightarrow>
          specialCooldown (p1 (battleState m')) = 1 \<and> specialCooldown (p2 (battleState m')) = 0
          \<and> map_of (activeMatches srv') ''m1'' = Some m'
      | _ \<Rightarrow> False)"
proof -
  note T = special_cooldown_range
  \<comment> \<open>a pending special, accepted at cooldown 0\<close>
  obtain m where m: "activeMatches beforeDoubleKO = [(''m1'', m)]"
    and st: "status (battleState m) = WaitingActions"
    and su: "summary m = ((25, 0, Some ''special''), (15, 0, None))"
    using before_double_ko [THEN conjunct2] by (auto simp: map_eq_Cons_conv)
  have rs: "reachable_session m"
    using reachable_beforeDoubleKO by (rule session_stored) (simp add: m)
  have a: "action (p1 (battleState m)) = Some ''special''"
    and c2: "specialCooldown (p2 (battleState m)) = 0"
    using su by (simp_all add: summary_def)
  have "pending_ok (p1 (battleState m))"
    using T [THEN conjunct1, rule_format, OF rs] st by simp
  then have "specialCooldown (p1 (battleState m)) = 0"
    using a by (simp add: pending_ok_def)
  then have 1: "case activeMatches beforeDoubleKO of
     [(k, m)] \<Rightarrow>
       reachable_session m \<and> status (battleState m) = WaitingActions
       \<and> action (p1 (battleState m)) = Some ''special''
       \<and> specialCooldown (p1 (battleState m)) = 0 \<and> specialCooldown (p2 (battleState m)) = 0
   | _ \<Rightarrow> False"
    using m rs st a c2 by simp
  \<comment> \<open>the turn of the special: the cooldown becomes 2\<close>
  obtain ma where ma: "map_of (activeMatches duringTurn1) ''m1'' = Some ma"
    and sa: "summary ma = ((100, 0, Some ''special''), (100, 0, None))"
    and ia: "c_playerId (p1 (battleState ma)) = ''A''" "c_playerId (p2 (battleState ma)) = ''B''"
    and fa: "find (\<lambda>p. socketId p = ''sb'') (players ma) = Some (newEntry ''sb'' bob)"
    using during_turns [THEN conjunct2, THEN conjunct1] by auto
  obtain srva senta wa where pa0: "pvp_submit_action ''sb'' ''m1'' ''attack'' 0 0 duringTurn1 = (srva, senta, wa)"
    by (cases "pvp_submit_action ''sb'' ''m1'' ''attack'' 0 0 duringTurn1") auto
  obtain ma' where wa: "wa = Some ma'" and sta: "status (battleState ma') = WaitingActions"
    using turns_resolved [THEN conjunct1] by (auto simp: pa0)
  have pa: "pvp_submit_action ''sb'' ''m1'' ''attack'' 0 0 duringTurn1 = (srva, senta, Some ma')"
    using pa0 wa by simp
  have ha: "map_of (activeMatches duringTurn1) ''m1'' = Some ma
        \<and> find (\<lambda>p. socketId p = ''sb'') (players ma) = Some (newEntry ''sb'' bob)
        \<and> pvp_submit_action ''sb'' ''m1'' ''attack'' 0 0 duringTurn1 = (srva, senta, Some ma')"
    using ma fa pa by simp
  have 2: "specialCooldown (p1 (battleState ma')) = 2 \<and> specialCooldown (p2 (battleState ma')) = 0
          \<and> map_of (activeMatches srva) ''m1'' = Some ma'"
    using T [THEN conjunct2, THEN conjunct2, THEN conjunct2, THEN conjunct2, THEN conjunct2,
        THEN mp, OF ha] sa ia sta
    by (simp add: Let_def setAction_action summary_def newEntry_def bob_def)
  \<comment> \<open>the next turn: the cooldown decays to 1\<close>
  obtain mb where mb: "map_of (activeMatches duringTurn2) ''m1'' = Some mb"
    and sb: "summary mb = ((85, 2, Some ''attack''), (70, 0, None))"
    and ib: "c_playerId (p1 (battleState mb)) = ''A''" "c_playerId (p2 (battleState mb)) = ''B''"
    and fb: "find (\<lambda>p. socketId p = ''sb'') (players mb) = Some (newEntry ''sb'' bob)"
    using during_turns [THEN conjunct2, THEN conjunct2] by auto
  obtain srvb sentb wb
    where pb0: "pvp_submit_action ''sb'' ''m1'' ''attack'' (15 / 16) (1 / 2) duringTurn2 = (srvb, sentb, wb)"
    by (cases "pvp_submit_action ''sb'' ''m1'' ''attack'' (15 / 16) (1 / 2) duringTurn2") auto
  obtain mb' where wb: "wb = Some mb'" and stb: "status (battleState mb') = WaitingActions"
    using turns_resolved [THEN conjunct2] by (auto simp: pb0)
  have hb: "map_of (activeMatches duringTurn2) ''m1'' = Some mb
        \<and> find (\<lambda>p. socketId p = ''sb'') (players mb) = Some (newEntry ''sb'' bob)
        \<and> pvp_submit_action ''sb'' ''m1'' ''attack'' (15 / 16) (1 / 2) duringTurn2 = (srvb, sentb, Some mb')"
    using mb fb pb0 wb by simp
  have 3: "specialCooldown (p1 (battleState mb')) = 1 \<and> specialCooldown (p2 (battleState mb')) = 0
          \<and> map_of (activeMatches srvb) ''m1'' = Some mb'"
    using T [THEN conjunct2, THEN conjunct2, THEN conjunct2, THEN conjunct2, THEN conjunct2,
        THEN mp, OF hb] sb ib stb
    by (simp add: Let_def setAction_action summary_def newEntry_def bob_def)
  show ?thesis
    using 1 2 3 by (simp add: pa0 wa pb0 wb)
qed

end
